theory Spec2Isabelle
  imports Complex_Main
begin

section \<open>The parking lot of \<^verbatim>\<open>src/parking_lot/parking.py\<close>\<close>

text \<open>
  A shallow embedding of the classes \<^verbatim>\<open>Zone\<close>, \<^verbatim>\<open>Vehicle\<close> and \<^verbatim>\<open>Lot\<close>.
  Python mutates the objects in place; the model passes the state explicitly: every method
  of \<^verbatim>\<open>Lot\<close> takes the lot and returns the lot it leaves behind, together with
  either the exception it raised (\<open>Inl\<close>) or its result (\<open>Inr\<close>). The state is returned
  in both cases, since a caller that catches the exception goes on with the mutated objects.

  Modelling decisions:
  \<^item> The sizes are Python floats. A float is a rational number and \<^verbatim>\<open><=\<close> compares floats
    exactly, so a size is a \<open>rat\<close>; the one division (\<^verbatim>\<open>math.ceil(vehicle.size / zone.size)\<close>)
    is taken exactly, without the rounding of the float quotient.
  \<^item> \<^verbatim>\<open>str(uuid.uuid4())\<close> is an argument of \<open>Vehicle_init\<close> and \<open>add_vehicle\<close>: the caller of
    the model supplies the identifier the library would draw.
  \<^item> A slot of \<^verbatim>\<open>zone.spots\<close> holds a reference to the vehicle object; the model stores the
    identifier of that object.
  \<^item> \<^verbatim>\<open>self.zones\<close> is a \<^verbatim>\<open>defaultdict(list)\<close> keyed by the zone type's name: a total
    function from zone types to zone lists, the empty list where the dictionary has no key.
    The zones are distinct objects.
  \<^item> \<^verbatim>\<open>logging\<close> calls are left out, but for the warning of \<^verbatim>\<open>remove_vehicle\<close>, which is the
    only thing that tells its two branches apart.
\<close>

subsection \<open>Data\<close>

datatype ZoneType = Z_CYCLE | Z_COMPACT | Z_REGULAR | Z_LARGE

datatype VehicleType = V_CYCLE | V_CAR | V_VAN

datatype py_error = IndexError | ZeroDivisionError | ValueError

record Zone =
  ztype :: ZoneType
  zsize :: rat
  adjacent :: bool
  spots :: "string option list"
  free :: "nat list"

record Vehicle =
  vid :: string
  vtype :: VehicleType
  location :: "(ZoneType \<times> nat \<times> nat list) option"
  vsize :: rat
  priority :: "ZoneType list"

record Lot =
  zones :: "ZoneType \<Rightarrow> Zone list"
  count :: "VehicleType \<rightharpoonup> int"
  vehicles :: "string \<rightharpoonup> Vehicle"

text \<open>\<^verbatim>\<open>Zone.__init__\<close>: \<^verbatim>\<open>range(num_spots)\<close> is empty for a negative \<^verbatim>\<open>num_spots\<close>.\<close>

definition Zone_init :: "ZoneType \<Rightarrow> rat \<Rightarrow> int \<Rightarrow> bool \<Rightarrow> Zone" where
  "Zone_init t s num_spots adj =
     \<lparr>ztype = t, zsize = s, adjacent = adj,
      spots = replicate (nat num_spots) None,
      free = [0..<nat num_spots]\<rparr>"

text \<open>\<^verbatim>\<open>Vehicle.__init__\<close>: the size and the priority list of each vehicle type.\<close>

definition Vehicle_init :: "string \<Rightarrow> VehicleType \<Rightarrow> Vehicle" where
  "Vehicle_init i t =
     (case t of
        V_CYCLE \<Rightarrow> \<lparr>vid = i, vtype = t, location = None, vsize = 3 / 10,
                     priority = [Z_CYCLE, Z_COMPACT, Z_REGULAR, Z_LARGE]\<rparr>
      | V_CAR \<Rightarrow> \<lparr>vid = i, vtype = t, location = None, vsize = 8 / 10,
                   priority = [Z_COMPACT, Z_REGULAR, Z_LARGE]\<rparr>
      | V_VAN \<Rightarrow> \<lparr>vid = i, vtype = t, location = None, vsize = 3,
                   priority = [Z_LARGE, Z_REGULAR]\<rparr>)"

text \<open>\<^verbatim>\<open>Lot.__init__\<close>: the zones are filed under their type, in the order given.\<close>

definition Lot_init :: "Zone list \<Rightarrow> Lot" where
  "Lot_init zs =
     \<lparr>zones = (\<lambda>t. filter (\<lambda>z. ztype z = t) zs),
      count = Map.empty,
      vehicles = Map.empty\<rparr>"

text \<open>Writing through the reference to the zone object \<^verbatim>\<open>self.zones[zt.name][zi]\<close>.\<close>

definition set_zone :: "Lot \<Rightarrow> ZoneType \<Rightarrow> nat \<Rightarrow> Zone \<Rightarrow> Lot" where
  "set_zone l zt zi z = l\<lparr>zones := (zones l)(zt := (zones l zt)[zi := z])\<rparr>"

text \<open>\<^verbatim>\<open>self.count[name] += n\<close> on a \<^verbatim>\<open>defaultdict(int)\<close>.\<close>

definition count_add :: "(VehicleType \<rightharpoonup> int) \<Rightarrow> VehicleType \<Rightarrow> int \<Rightarrow> (VehicleType \<rightharpoonup> int)" where
  "count_add c k n = c(k \<mapsto> (case c k of None \<Rightarrow> 0 | Some m \<Rightarrow> m) + n)"

subsection \<open>Occupancy\<close>

definition num_parked_vehicle :: "Lot \<Rightarrow> VehicleType \<Rightarrow> int" where
  "num_parked_vehicle l t = (case count l t of Some n \<Rightarrow> n | None \<Rightarrow> 0)"

subsection \<open>Searching the free list for adjacent spots\<close>

text \<open>
  The \<^verbatim>\<open>while\<close> loop of \<^verbatim>\<open>find_adjacent_free_spots\<close>, with the loop variables \<^verbatim>\<open>index\<close> and
  \<^verbatim>\<open>free_indexes\<close> as arguments. \<^verbatim>\<open>num_spots\<close> is a Python integer: for \<^verbatim>\<open>num_spots <= 0\<close>
  the window is the empty list and reading its first element raises.
\<close>

function find_adjacent_loop ::
  "nat list \<Rightarrow> int \<Rightarrow> bool \<Rightarrow> nat \<Rightarrow> nat list \<Rightarrow> py_error + nat list" where
  "find_adjacent_loop fr num_spots first index free_indexes =
     (let last_index = int (length fr) - 1;
          end = last_index - (num_spots - 1)
      in if int index \<le> end then
           (let potential_adjacent_spots =
                  map (\<lambda>x. fr ! x) [index..<nat (int index + num_spots)]
            in if potential_adjacent_spots = [] then Inl IndexError
               else
                 (let first_spot = potential_adjacent_spots ! 0;
                      last_spot = potential_adjacent_spots ! (length potential_adjacent_spots - 1);
                      difference_between_spots = int last_spot - int first_spot;
                      all_spots_adjacent = (difference_between_spots + 1 = num_spots)
                  in if \<not> all_spots_adjacent
                     then find_adjacent_loop fr num_spots first (index + 1) free_indexes
                     else if first then Inr (free_indexes @ [index])
                     else find_adjacent_loop fr num_spots first
                            (nat (int index + (num_spots + 1))) (free_indexes @ [index])))
         else Inr free_indexes)"
  by pat_completeness auto
termination
  by (relation "measure (\<lambda>(fr, num_spots, first, index, free_indexes). length fr - index)")
     (auto split: if_splits)

definition find_adjacent_free_spots :: "nat list \<Rightarrow> int \<Rightarrow> bool \<Rightarrow> py_error + nat list" where
  "find_adjacent_free_spots fr num_spots first = find_adjacent_loop fr num_spots first 0 []"

subsection \<open>Parking in one zone\<close>

text \<open>
  \<^verbatim>\<open>park_single\<close>. The zone object is the one at \<^verbatim>\<open>self.zones[zone_type.name][zone_index]\<close>,
  given here by its key and index. \<^verbatim>\<open>zone.free.pop(0)\<close> raises on an empty list, and the
  assignment to \<^verbatim>\<open>zone.spots[spot_index]\<close> raises when the index is past the end (the popped
  entry is then already gone from the free list).
\<close>

definition park_single :: "Lot \<Rightarrow> ZoneType \<Rightarrow> nat \<Rightarrow> Vehicle \<Rightarrow> Lot \<times> (py_error + Vehicle)" where
  "park_single l zone_type zone_index vehicle =
     (let zone = zones l zone_type ! zone_index in
      case free zone of
        [] \<Rightarrow> (l, Inl IndexError)
      | spot_index # remaining \<Rightarrow>
          if length (spots zone) \<le> spot_index
          then (set_zone l zone_type zone_index (zone\<lparr>free := remaining\<rparr>), Inl IndexError)
          else
            (set_zone l zone_type zone_index
               (zone\<lparr>free := remaining,
                      spots := (spots zone)[spot_index := Some (vid vehicle)]\<rparr>)
               \<lparr>count := count_add (count l) (vtype vehicle) 1\<rparr>,
             Inr (vehicle\<lparr>location := Some (ztype zone, zone_index, [spot_index])\<rparr>)))"

text \<open>
  The \<^verbatim>\<open>for\<close> loop of \<^verbatim>\<open>park_adjacent\<close>: as many iterations as the range has elements, each
  popping the entry at the same position of the free list.
\<close>

fun park_adjacent_loop ::
  "Zone \<Rightarrow> nat \<Rightarrow> string \<Rightarrow> nat \<Rightarrow> nat list \<Rightarrow> Zone \<times> (py_error + nat list)" where
  "park_adjacent_loop zone first_spot_index_to_park occ 0 occupied_spots =
     (zone, Inr occupied_spots)"
| "park_adjacent_loop zone first_spot_index_to_park occ (Suc k) occupied_spots =
     (if length (free zone) \<le> first_spot_index_to_park then (zone, Inl IndexError)
      else
        (let spot_index = free zone ! first_spot_index_to_park;
             zone1 = zone\<lparr>free := take first_spot_index_to_park (free zone)
                                     @ drop (Suc first_spot_index_to_park) (free zone)\<rparr>
         in if length (spots zone1) \<le> spot_index then (zone1, Inl IndexError)
            else park_adjacent_loop
                   (zone1\<lparr>spots := (spots zone1)[spot_index := Some occ]\<rparr>)
                   first_spot_index_to_park occ k (occupied_spots @ [spot_index])))"

text \<open>
  \<^verbatim>\<open>park_adjacent\<close>. The division raises for a zone of size zero. When the search finds no
  run, nothing is changed and the vehicle keeps its empty location. The count grows by
  \<^verbatim>\<open>num_adjacent\<close> (line 275 of the source).
\<close>

definition park_adjacent :: "Lot \<Rightarrow> ZoneType \<Rightarrow> nat \<Rightarrow> Vehicle \<Rightarrow> Lot \<times> (py_error + Vehicle)" where
  "park_adjacent l zone_type zone_index vehicle =
     (let zone = zones l zone_type ! zone_index in
      if zsize zone = 0 then (l, Inl ZeroDivisionError)
      else
        (let num_adjacent = \<lceil>vsize vehicle / zsize zone\<rceil> in
         case find_adjacent_free_spots (free zone) num_adjacent True of
           Inl e \<Rightarrow> (l, Inl e)
         | Inr adjacent_spots_to_park \<Rightarrow>
             if adjacent_spots_to_park = [] then (l, Inr vehicle)
             else
               (let first_spot_index_to_park = adjacent_spots_to_park ! 0;
                    last_spot_index_to_park = int first_spot_index_to_park + (num_adjacent - 1)
                in case park_adjacent_loop zone first_spot_index_to_park (vid vehicle)
                          (nat (last_spot_index_to_park + 1 - int first_spot_index_to_park)) [] of
                     (zone', Inl e) \<Rightarrow> (set_zone l zone_type zone_index zone', Inl e)
                   | (zone', Inr occupied_spots) \<Rightarrow>
                       (set_zone l zone_type zone_index zone'
                          \<lparr>count := count_add (count l) (vtype vehicle) num_adjacent\<rparr>,
                        Inr (vehicle\<lparr>location :=
                               Some (ztype zone, zone_index, occupied_spots)\<rparr>)))))"

subsection \<open>Choosing the zone\<close>

text \<open>
  The inner loop of \<^verbatim>\<open>park_first_available\<close>, over the indices of the zones of one type.
  The second component of the result is the flag \<^verbatim>\<open>parked\<close>. Both parking branches set the
  flag and leave the loop, whatever \<^verbatim>\<open>park_adjacent\<close> did.
\<close>

fun park_zone_loop ::
  "Lot \<Rightarrow> ZoneType \<Rightarrow> Vehicle \<Rightarrow> nat list \<Rightarrow> Lot \<times> (py_error + Vehicle \<times> bool)" where
  "park_zone_loop l zone_type vehicle [] = (l, Inr (vehicle, False))"
| "park_zone_loop l zone_type vehicle (zone_index # rest) =
     (let zone = zones l zone_type ! zone_index;
          free_spots_exist = length (free zone)
      in if free_spots_exist = 0 then park_zone_loop l zone_type vehicle rest
         else if vsize vehicle \<le> zsize zone then
           (case park_single l zone_type zone_index vehicle of
              (l', Inl e) \<Rightarrow> (l', Inl e)
            | (l', Inr vehicle') \<Rightarrow> (l', Inr (vehicle', True)))
         else if adjacent zone then
           (case park_adjacent l zone_type zone_index vehicle of
              (l', Inl e) \<Rightarrow> (l', Inl e)
            | (l', Inr vehicle') \<Rightarrow> (l', Inr (vehicle', True)))
         else park_zone_loop l zone_type vehicle rest)"

text \<open>The outer loop, over the vehicle's priority list; it stops once \<^verbatim>\<open>parked\<close> is set.\<close>

fun park_type_loop :: "Lot \<Rightarrow> Vehicle \<Rightarrow> ZoneType list \<Rightarrow> Lot \<times> (py_error + Vehicle)" where
  "park_type_loop l vehicle [] = (l, Inr vehicle)"
| "park_type_loop l vehicle (zone_type # rest) =
     (case park_zone_loop l zone_type vehicle [0..<length (zones l zone_type)] of
        (l', Inl e) \<Rightarrow> (l', Inl e)
      | (l', Inr (vehicle', parked)) \<Rightarrow>
          if parked then (l', Inr vehicle') else park_type_loop l' vehicle' rest)"

definition park_first_available :: "Lot \<Rightarrow> Vehicle \<Rightarrow> Lot \<times> (py_error + Vehicle)" where
  "park_first_available l vehicle = park_type_loop l vehicle (priority vehicle)"

subsection \<open>Adding and removing vehicles\<close>

text \<open>
  \<^verbatim>\<open>add_vehicle\<close>, with the identifier of the new vehicle as an argument. The type check of
  the source cannot fail on a \<open>VehicleType\<close>. A vehicle that comes back without a location
  is returned and not stored.
\<close>

definition add_vehicle :: "Lot \<Rightarrow> string \<Rightarrow> VehicleType \<Rightarrow> Lot \<times> (py_error + Vehicle)" where
  "add_vehicle l i t =
     (case park_first_available l (Vehicle_init i t) of
        (l', Inl e) \<Rightarrow> (l', Inl e)
      | (l', Inr vehicle) \<Rightarrow>
          if location vehicle = None then (l', Inr vehicle)
          else (l'\<lparr>vehicles := (vehicles l')(vid vehicle \<mapsto> vehicle)\<rparr>, Inr vehicle))"

text \<open>
  \<^verbatim>\<open>bisect.insort\<close> of the standard library: \<^verbatim>\<open>bisect_right\<close> is a binary search for the
  position after the entries that are not greater than \<open>x\<close>, and \<^verbatim>\<open>a.insert(lo, x)\<close> puts
  \<open>x\<close> there.
\<close>

function bisect_right :: "nat list \<Rightarrow> nat \<Rightarrow> nat \<Rightarrow> nat \<Rightarrow> nat" where
  "bisect_right a x lo hi =
     (if lo < hi then
        (let mid = (lo + hi) div 2
         in if x < a ! mid then bisect_right a x lo mid else bisect_right a x (mid + 1) hi)
      else lo)"
  by pat_completeness auto
termination
  by (relation "measure (\<lambda>(a, x, lo, hi). hi - lo)") auto

definition bisect_insort :: "nat list \<Rightarrow> nat \<Rightarrow> nat list" where
  "bisect_insort a x = (let lo = bisect_right a x 0 (length a) in take lo a @ [x] @ drop lo a)"

text \<open>The \<^verbatim>\<open>for\<close> loop of \<^verbatim>\<open>remove_vehicle\<close> over the spot indices of the location.\<close>

fun remove_loop :: "Zone \<Rightarrow> nat list \<Rightarrow> Zone \<times> py_error option" where
  "remove_loop zone [] = (zone, None)"
| "remove_loop zone (spot_index # rest) =
     (if length (spots zone) \<le> spot_index then (zone, Some IndexError)
      else remove_loop
             (zone\<lparr>spots := (spots zone)[spot_index := None],
                    free := bisect_insort (free zone) spot_index\<rparr>) rest)"

datatype remove_outcome = Removed | Warned_not_in_lot

text \<open>
  \<^verbatim>\<open>remove_vehicle\<close> returns \<^verbatim>\<open>None\<close> on both branches; \<open>Warned_not_in_lot\<close> stands for the
  call of \<^verbatim>\<open>logging.warning\<close> on the second. Unpacking an empty location raises
  \<^verbatim>\<open>ValueError\<close>, a zone index past the end \<^verbatim>\<open>IndexError\<close>.
\<close>

definition remove_vehicle :: "Lot \<Rightarrow> Vehicle \<Rightarrow> Lot \<times> (py_error + remove_outcome)" where
  "remove_vehicle l vehicle =
     (if vehicles l (vid vehicle) \<noteq> None then
        (case location vehicle of
           None \<Rightarrow> (l, Inl ValueError)
         | Some (zone_type, zone_index, spot_indices) \<Rightarrow>
             if length (zones l zone_type) \<le> zone_index then (l, Inl IndexError)
             else
               (case remove_loop (zones l zone_type ! zone_index) spot_indices of
                  (zone', Some e) \<Rightarrow> (set_zone l zone_type zone_index zone', Inl e)
                | (zone', None) \<Rightarrow>
                    (set_zone l zone_type zone_index zone'
                       \<lparr>count := count_add (count l) (vtype vehicle) (- 1),
                        vehicles := (vehicles l)(vid vehicle := None)\<rparr>,
                     Inr Removed)))
      else (l, Inr Warned_not_in_lot))"

subsection \<open>Availability\<close>

text \<open>The loop of \<^verbatim>\<open>vehicle_availability\<close> over the regular zones, for a van.\<close>

fun van_regular_loop :: "Zone list \<Rightarrow> int \<Rightarrow> int \<Rightarrow> py_error + int" where
  "van_regular_loop [] num_spots_for_van_in_regular num_spots = Inr num_spots"
| "van_regular_loop (zone # rest) num_spots_for_van_in_regular num_spots =
     (case find_adjacent_free_spots (free zone) num_spots_for_van_in_regular False of
        Inl e \<Rightarrow> Inl e
      | Inr found \<Rightarrow>
          van_regular_loop rest num_spots_for_van_in_regular (num_spots + int (length found)))"

text \<open>
  \<^verbatim>\<open>vehicle_availability\<close>. It only reads the lot. \<^verbatim>\<open>regular_zones[0]\<close> is read before the
  loop over the regular zones.
\<close>

definition vehicle_availability :: "Lot \<Rightarrow> VehicleType \<Rightarrow> py_error + int" where
  "vehicle_availability l t =
     (let vehicle = Vehicle_init [] t in
      case t of
        V_VAN \<Rightarrow>
          (let large_zones = zones l Z_LARGE;
               num_spots = (\<Sum>zone\<leftarrow>large_zones. int (length (free zone)));
               regular_zones = zones l Z_REGULAR
           in if regular_zones = [] then Inl IndexError
              else if zsize (regular_zones ! 0) = 0 then Inl ZeroDivisionError
              else van_regular_loop regular_zones
                     \<lceil>vsize vehicle / zsize (regular_zones ! 0)\<rceil> num_spots)
      | _ \<Rightarrow>
          Inr (\<Sum>zone_type\<leftarrow>priority vehicle.
                 \<Sum>zone\<leftarrow>zones l zone_type. int (length (free zone))))"

subsection \<open>The run search in the words of the specification\<close>

text \<open>
  The search as section 4.2 of the specification describes it, with a cursor into the free
  list: stop when fewer than \<open>len\<close> entries remain at or after the cursor; the window is
  the \<open>len\<close> entries from the cursor on; it is accepted when its last value minus its first
  is \<open>len - 1\<close>; an accepted window records the cursor and moves it by \<open>len + 1\<close>, a
  rejected one moves it by one; with \<open>first_only\<close> the first accepted window ends the search.
  The specification speaks of positive lengths only; length zero finds nothing here.
\<close>

function find_contiguous_run :: "nat list \<Rightarrow> nat \<Rightarrow> bool \<Rightarrow> nat \<Rightarrow> nat list \<Rightarrow> nat list" where
  "find_contiguous_run fs len first_only cursor found =
     (if len = 0 \<or> length fs - cursor < len then found
      else
        (let window = take len (drop cursor fs)
         in if int (last window) - int (hd window) = int len - 1
            then (if first_only then found @ [cursor]
                  else find_contiguous_run fs len first_only (cursor + (len + 1)) (found @ [cursor]))
            else find_contiguous_run fs len first_only (cursor + 1) found))"
  by pat_completeness auto
termination
  by (relation "measure (\<lambda>(fs, len, first_only, cursor, found). length fs - cursor)") auto

subsection \<open>Reachable states\<close>

text \<open>
  A lot is built from freshly constructed zones, then vehicles are added and removed. The
  second component lists the vehicle objects \<^verbatim>\<open>add_vehicle\<close> has returned so far, which are
  the objects a caller can hand to \<^verbatim>\<open>remove_vehicle\<close>. A new vehicle gets an identifier no
  earlier vehicle has (the identifiers are drawn by \<^verbatim>\<open>uuid.uuid4\<close>). Any other vehicle
  object has an identifier that is not stored, and \<^verbatim>\<open>remove_vehicle\<close> leaves the lot alone
  for it, so such calls reach no further state.
\<close>

type_synonym zone_spec = "ZoneType \<times> rat \<times> int \<times> bool"

definition make_zones :: "zone_spec list \<Rightarrow> Zone list" where
  "make_zones specs = map (\<lambda>(t, s, n, a). Zone_init t s n a) specs"

definition returned :: "py_error + Vehicle \<Rightarrow> Vehicle list \<Rightarrow> Vehicle list" where
  "returned r vs = (case r of Inl e \<Rightarrow> vs | Inr v \<Rightarrow> v # vs)"

inductive reachable :: "zone_spec list \<Rightarrow> Lot \<Rightarrow> Vehicle list \<Rightarrow> bool" for specs where
  init: "reachable specs (Lot_init (make_zones specs)) []"
| add: "reachable specs l vs \<Longrightarrow> i \<notin> vid ` set vs \<Longrightarrow> add_vehicle l i t = (l', r)
        \<Longrightarrow> reachable specs l' (returned r vs)"
| remove: "reachable specs l vs \<Longrightarrow> v \<in> set vs \<Longrightarrow> remove_vehicle l v = (l', r)
        \<Longrightarrow> reachable specs l' vs"

text \<open>The number of occupied slots of a zone: the entries of \<^verbatim>\<open>zone.spots\<close> that are not \<^verbatim>\<open>None\<close>.\<close>

definition occupied_count :: "Zone \<Rightarrow> nat" where
  "occupied_count z = length (filter (\<lambda>s. s \<noteq> None) (spots z))"

subsection \<open>The slot ledger of the specification, and well-formed states\<close>

text \<open>
  Section 4.1 of the specification describes two operations on a zone. \<open>occupy\<close> marks the
  given slots as held by an occupant and takes them out of the free list, keeping the order
  of the rest; \<open>vacate\<close> (the specification's \<open>release\<close>) clears the slots and puts each
  index back at its sorted position. The loops of the source are compared with them below.
\<close>

definition occupy :: "Zone \<Rightarrow> nat list \<Rightarrow> string \<Rightarrow> Zone" where
  "occupy z idxs occ =
     z\<lparr>spots := fold (\<lambda>x s. s[x := Some occ]) idxs (spots z),
       free := filter (\<lambda>x. x \<notin> set idxs) (free z)\<rparr>"

definition vacate :: "Zone \<Rightarrow> nat list \<Rightarrow> Zone" where
  "vacate z idxs =
     z\<lparr>spots := fold (\<lambda>x s. s[x := None]) idxs (spots z),
       free := fold insort idxs (free z)\<rparr>"

text \<open>
  A zone is well formed when its free list is strictly ascending and holds exactly the
  indices of the empty slots.
\<close>

definition zone_ok :: "Zone \<Rightarrow> bool" where
  "zone_ok z \<longleftrightarrow>
     sorted_wrt (<) (free z)
     \<and> set (free z) = {i. i < length (spots z) \<and> spots z ! i = None}"

text \<open>The location of a stored vehicle names slots that hold this vehicle.\<close>

definition placed_ok :: "Lot \<Rightarrow> Vehicle \<Rightarrow> bool" where
  "placed_ok l v \<longleftrightarrow>
     (case location v of
        None \<Rightarrow> False
      | Some (zt, zi, idxs) \<Rightarrow>
          zi < length (zones l zt) \<and> distinct idxs
          \<and> (\<forall>j\<in>set idxs. j < length (spots (zones l zt ! zi))
                \<and> spots (zones l zt ! zi) ! j = Some (vid v)))"

text \<open>Every zone of the lot is well formed and filed under its own type.\<close>

definition zones_ok :: "Lot \<Rightarrow> bool" where
  "zones_ok l \<longleftrightarrow> (\<forall>zt. \<forall>z\<in>set (zones l zt). zone_ok z \<and> ztype z = zt)"

text \<open>
  The invariant of the reachable states: the zones are well formed, every stored vehicle is
  one that was returned, is stored under its identifier and is placed, and the returned
  vehicles have different identifiers.
\<close>

definition lot_inv :: "Lot \<Rightarrow> Vehicle list \<Rightarrow> bool" where
  "lot_inv l vs \<longleftrightarrow>
     zones_ok l
     \<and> (\<forall>i v. vehicles l i = Some v \<longrightarrow> v \<in> set vs \<and> vid v = i \<and> placed_ok l v)
     \<and> distinct (map vid vs)"

text \<open>
  What a successful parking does to the lot and the vehicle: some free slots of one zone are
  occupied in the ledger's sense, the vehicle gets them as its location, and the count of
  its type grows by some number.
\<close>

definition placed_in :: "Lot \<Rightarrow> Vehicle \<Rightarrow> Lot \<Rightarrow> Vehicle \<Rightarrow> bool" where
  "placed_in l v0 l' v \<longleftrightarrow>
     (\<exists>zt zi idxs n.
        zi < length (zones l zt) \<and> idxs \<noteq> [] \<and> distinct idxs
        \<and> set idxs \<subseteq> set (free (zones l zt ! zi))
        \<and> v = v0\<lparr>location := Some (zt, zi, idxs)\<rparr>
        \<and> l' = set_zone l zt zi (occupy (zones l zt ! zi) idxs (vid v0))
                 \<lparr>count := count_add (count l) (vtype v0) n\<rparr>)"

text \<open>The slot count the \<open>zi\<close>-th zone of type \<open>zt\<close> was constructed with.\<close>

definition total_slots :: "zone_spec list \<Rightarrow> ZoneType \<Rightarrow> nat \<Rightarrow> nat" where
  "total_slots specs zt zi =
     (case filter (\<lambda>(t, s, n, a). t = zt) specs ! zi of (t, s, n, a) \<Rightarrow> nat n)"

subsection \<open>Sample lots\<close>

text \<open>One regular zone of three spots that lets bigger vehicles use adjacent spots.\<close>

definition lot_one_regular :: Lot where
  "lot_one_regular = Lot_init (make_zones [(Z_REGULAR, 1, 3, True)])"

definition van_in_regular :: Vehicle where
  "van_in_regular =
     \<lparr>vid = ''van'', vtype = V_VAN, location = Some (Z_REGULAR, 0, [0, 1, 2]),
      vsize = 3, priority = [Z_LARGE, Z_REGULAR]\<rparr>"

text \<open>Two such zones, and the lot after a car has taken the first spot of the first.\<close>

definition lot_two_regular :: Lot where
  "lot_two_regular =
     Lot_init (make_zones [(Z_REGULAR, 1, 3, True), (Z_REGULAR, 1, 3, True)])"

definition lot_two_regular_one_car :: Lot where
  "lot_two_regular_one_car = fst (add_vehicle lot_two_regular ''car'' V_CAR)"

text \<open>A lot with one large zone and no regular zone.\<close>

definition lot_large_only :: Lot where
  "lot_large_only = Lot_init (make_zones [(Z_LARGE, 3, 3, False)])"

text \<open>A lot whose only zone, a compact zone of one spot, holds a car.\<close>

definition lot_compact_full :: Lot where
  "lot_compact_full =
     fst (add_vehicle (Lot_init (make_zones [(Z_COMPACT, 8 / 10, 1, False)])) ''car'' V_CAR)"

text \<open>The lot with one regular zone after a van was parked there and removed again.\<close>

definition lot_van_released :: Lot where
  "lot_van_released =
     fst (remove_vehicle (fst (add_vehicle lot_one_regular ''van'' V_VAN)) van_in_regular)"

text \<open>
  One regular zone of five spots. Two cars take the spots 0 and 1, the first car leaves, a
  van takes the spots 2, 3 and 4 and leaves again.
\<close>

definition car_at :: "string \<Rightarrow> ZoneType \<Rightarrow> nat \<Rightarrow> nat \<Rightarrow> Vehicle" where
  "car_at i zt zi spot =
     \<lparr>vid = i, vtype = V_CAR, location = Some (zt, zi, [spot]),
      vsize = 8 / 10, priority = [Z_COMPACT, Z_REGULAR, Z_LARGE]\<rparr>"

definition van_at_234 :: Vehicle where
  "van_at_234 =
     \<lparr>vid = ''van'', vtype = V_VAN, location = Some (Z_REGULAR, 0, [2, 3, 4]),
      vsize = 3, priority = [Z_LARGE, Z_REGULAR]\<rparr>"

definition lot_five :: Lot where
  "lot_five = Lot_init (make_zones [(Z_REGULAR, 1, 5, True)])"

definition lot_five_two_cars :: Lot where
  "lot_five_two_cars =
     fst (add_vehicle (fst (add_vehicle lot_five ''car1'' V_CAR)) ''car2'' V_CAR)"

definition lot_five_gap :: Lot where
  "lot_five_gap = fst (remove_vehicle lot_five_two_cars (car_at ''car1'' Z_REGULAR 0 0))"

definition lot_five_van :: Lot where
  "lot_five_van = fst (add_vehicle lot_five_gap ''van'' V_VAN)"

definition lot_five_van_gone :: Lot where
  "lot_five_van_gone = fst (remove_vehicle lot_five_van van_at_234)"

text \<open>
  Two compact zones, of one and of two spots, the second allowing adjacent spots; a car
  holds the only spot of the first.
\<close>

definition lot_two_compact :: Lot where
  "lot_two_compact =
     Lot_init (make_zones [(Z_COMPACT, 8 / 10, 1, False), (Z_COMPACT, 8 / 10, 2, True)])"

definition lot_two_compact_one_car :: Lot where
  "lot_two_compact_one_car = fst (add_vehicle lot_two_compact ''car1'' V_CAR)"

section \<open>Properties\<close>

declare find_adjacent_loop.simps [simp del]
declare find_contiguous_run.simps [simp del]
declare bisect_right.simps [simp del]

subsection \<open>The run search\<close>

lemma window_as_take_drop:
  "i + n \<le> length fr \<Longrightarrow> map (\<lambda>x. fr ! x) [i..<i + n] = take n (drop i fr)"
  by (rule nth_equalityI) auto

lemma find_adjacent_loop_stop:
  assumes "0 < n" "length fr < i + n"
  shows "find_adjacent_loop fr (int n) first i acc = Inr acc"
proof -
  from assms have "\<not> int i \<le> int (length fr) - 1 - (int n - 1)" by linarith
  then show ?thesis
    by (subst find_adjacent_loop.simps) (simp only: Let_def if_False)
qed

lemma find_adjacent_loop_step:
  assumes "0 < n" "i + n \<le> length fr"
  shows "find_adjacent_loop fr (int n) first i acc =
     (if int (last (take n (drop i fr))) - int (hd (take n (drop i fr))) = int n - 1
      then (if first then Inr (acc @ [i])
            else find_adjacent_loop fr (int n) first (i + (n + 1)) (acc @ [i]))
      else find_adjacent_loop fr (int n) first (i + 1) acc)"
proof -
  define w where "w = take n (drop i fr)"
  define A where "A \<longleftrightarrow> int (last w) - int (hd w) = int n - 1"
  from assms have c: "int i \<le> int (length fr) - 1 - (int n - 1)" by linarith
  have n: "nat (int i + int n) = i + n" "nat (int i + (int n + 1)) = i + (n + 1)"
    by linarith+
  have w: "map (\<lambda>x. fr ! x) [i..<i + n] = w"
    unfolding w_def using assms(2) by (rule window_as_take_drop)
  have wl: "length w = n" unfolding w_def using assms(2) by simp
  then have wne: "(w = []) = False" using assms(1) by auto
  have h: "w ! 0 = hd w" using wne by (simp add: hd_conv_nth)
  have l: "w ! (n - 1) = last w" using wne wl by (simp add: last_conv_nth)
  have a: "(int (last w) - int (hd w) + 1 = int n) = A"
    unfolding A_def by linarith
  have "find_adjacent_loop fr (int n) first i acc =
     (if A then (if first then Inr (acc @ [i])
            else find_adjacent_loop fr (int n) first (i + (n + 1)) (acc @ [i]))
      else find_adjacent_loop fr (int n) first (i + 1) acc)"
    by (subst find_adjacent_loop.simps, simp only: Let_def c if_True n w wne if_False wl h l a)
       (cases A; simp)
  then show ?thesis unfolding A_def w_def .
qed

lemma find_adjacent_loop_refines:
  "0 < n \<Longrightarrow>
   find_adjacent_loop fr (int n) first i acc = Inr (find_contiguous_run fr n first i acc)"
proof (induction fr n first i acc rule: find_contiguous_run.induct)
  case (1 fs len first_only cursor found)
  note pos = \<open>0 < len\<close>
  show ?case
  proof (cases "length fs - cursor < len")
    case True
    then have "length fs < cursor + len" by linarith
    from find_adjacent_loop_stop [OF pos this] True show ?thesis
      by (subst find_contiguous_run.simps) simp
  next
    case False
    with pos have le: "cursor + len \<le> length fs" by linarith
    from pos False have guard: "\<not> (len = 0 \<or> length fs - cursor < len)" by simp
    let ?w = "take len (drop cursor fs)"
    show ?thesis
    proof (cases "int (last ?w) - int (hd ?w) = int len - 1")
      case accepted: True
      show ?thesis
      proof (cases first_only)
        case True
        with accepted guard show ?thesis
          by (subst find_adjacent_loop_step [OF pos le], subst find_contiguous_run.simps)
             (simp only: Let_def if_True if_False)
      next
        case False
        from "1.IH"(1) [OF guard refl accepted False pos] accepted guard False show ?thesis
          by (subst find_adjacent_loop_step [OF pos le], subst find_contiguous_run.simps)
             (simp only: Let_def if_True if_False)
      qed
    next
      case rejected: False
      from "1.IH"(2) [OF guard refl rejected pos] rejected guard show ?thesis
        by (subst find_adjacent_loop_step [OF pos le], subst find_contiguous_run.simps)
           (simp only: Let_def if_True if_False)
    qed
  qed
qed

text \<open>
  Claim C3. For every free list and every positive run length, \<^verbatim>\<open>find_adjacent_free_spots\<close>
  returns what the search of the specification returns, started with the cursor at 0 and
  nothing found: it looks at the window of \<open>n\<close> entries at the cursor, accepts it exactly
  when its last value minus its first is \<open>n - 1\<close>, records the cursor, moves it by \<open>n + 1\<close>
  after an accepted window and by 1 after a rejected one, stops when fewer than \<open>n\<close> entries
  remain, and stops at the first accepted window when \<open>first\<close> is set. The free list need
  not be sorted for this.
\<close>

theorem find_adjacent_free_spots_is_run_search:
  "0 < n \<Longrightarrow>
   find_adjacent_free_spots fr (int n) first = Inr (find_contiguous_run fr n first 0 [])"
  unfolding find_adjacent_free_spots_def by (rule find_adjacent_loop_refines)

theorem find_adjacent_free_spots_is_run_search_witness:
  "0 < (3::nat)
   \<and> find_adjacent_free_spots [0, 1, 2, 4, 5, 6, 8, 9] (int 3) False
       = Inr (find_contiguous_run [0, 1, 2, 4, 5, 6, 8, 9] 3 False 0 [])
   \<and> find_contiguous_run [0, 1, 2, 4, 5, 6, 8, 9] 3 False 0 [] = [0]
   \<and> find_contiguous_run [0, 1, 2, 3, 4, 5, 6, 7, 8, 9] 3 False 0 [] = [0, 4]"
proof -
  have h: "0 < (3::nat)" by simp
  have "find_contiguous_run [0, 1, 2, 4, 5, 6, 8, 9] 3 False 0 [] = [0]"
    "find_contiguous_run [0, 1, 2, 3, 4, 5, 6, 7, 8, 9] 3 False 0 [] = [0, 4]"
    by code_simp+
  with h find_adjacent_free_spots_is_run_search [OF h, of "[0, 1, 2, 4, 5, 6, 8, 9]" False]
  show ?thesis by simp
qed

subsection \<open>The loops of the source and the slot ledger\<close>

lemma length_fold_update [simp]:
  "length (fold (\<lambda>x s. s[x := v]) xs s) = length s"
  by (induction xs arbitrary: s) auto

lemma nth_fold_update:
  "j < length s \<Longrightarrow>
   fold (\<lambda>x s. s[x := v]) xs s ! j = (if j \<in> set xs then v else s ! j)"
  by (induction xs arbitrary: s) (auto simp: nth_list_update)

lemma bisect_right_spec:
  "sorted a \<Longrightarrow> lo \<le> hi \<Longrightarrow> hi \<le> length a \<Longrightarrow>
   \<forall>k<lo. a ! k \<le> x \<Longrightarrow> \<forall>k. hi \<le> k \<and> k < length a \<longrightarrow> x < a ! k \<Longrightarrow>
   bisect_right a x lo hi \<le> length a
   \<and> (\<forall>k<bisect_right a x lo hi. a ! k \<le> x)
   \<and> (\<forall>k. bisect_right a x lo hi \<le> k \<and> k < length a \<longrightarrow> x < a ! k)"
proof (induction a x lo hi rule: bisect_right.induct)
  case (1 a x lo hi)
  show ?case
  proof (cases "lo < hi")
    case False
    with 1(3-) have "lo = hi" by simp
    with False 1(3-) show ?thesis by (subst (1 2 3) bisect_right.simps) simp
  next
    case True
    define mid where "mid = (lo + hi) div 2"
    have m: "lo \<le> mid" "mid < hi" using True by (auto simp: mid_def)
    show ?thesis
    proof (cases "x < a ! mid")
      case lt: True
      have up: "\<forall>k. mid \<le> k \<and> k < length a \<longrightarrow> x < a ! k"
      proof (intro allI impI)
        fix k assume "mid \<le> k \<and> k < length a"
        then have "a ! mid \<le> a ! k" using \<open>sorted a\<close> by (simp add: sorted_iff_nth_mono)
        with lt show "x < a ! k" by simp
      qed
      have "mid \<le> length a" using m 1(5) by simp
      from "1.IH"(1) [OF True mid_def lt \<open>sorted a\<close> m(1) this 1(6) up] True lt
      show ?thesis by (subst (1 2 3) bisect_right.simps) (simp add: mid_def Let_def)
    next
      case ge: False
      have low: "\<forall>k<mid + 1. a ! k \<le> x"
      proof (intro allI impI)
        fix k assume "k < mid + 1"
        then have "a ! k \<le> a ! mid" using \<open>sorted a\<close> m 1(5) by (simp add: sorted_iff_nth_mono)
        with ge show "a ! k \<le> x" by simp
      qed
      have "mid + 1 \<le> hi" using m by simp
      from "1.IH"(2) [OF True mid_def ge \<open>sorted a\<close> this 1(5) low 1(7)] True ge
      show ?thesis by (subst (1 2 3) bisect_right.simps) (simp add: mid_def Let_def)
    qed
  qed
qed

lemma insert_at_is_insort:
  "sorted a \<Longrightarrow> r \<le> length a \<Longrightarrow> \<forall>k<r. a ! k \<le> x \<Longrightarrow>
   \<forall>k. r \<le> k \<and> k < length a \<longrightarrow> x < a ! k \<Longrightarrow>
   take r a @ x # drop r a = insort x a"
proof (induction a arbitrary: r)
  case Nil
  then show ?case by simp
next
  case (Cons y ys)
  show ?case
  proof (cases r)
    case 0
    with Cons.prems(4) have "x \<le> y" by auto
    with 0 show ?thesis by simp
  next
    case (Suc r')
    with Cons.prems(3) have yx: "y \<le> x" by auto
    have s: "sorted ys" using Cons.prems(1) by simp
    have r': "r' \<le> length ys" using Cons.prems(2) Suc by simp
    have lo: "\<forall>k<r'. ys ! k \<le> x" using Cons.prems(3) Suc by auto
    have hi: "\<forall>k. r' \<le> k \<and> k < length ys \<longrightarrow> x < ys ! k"
      using Cons.prems(4) Suc by auto
    note IH = Cons.IH [OF s r' lo hi]
    show ?thesis
    proof (cases "x = y")
      case True
      have "\<forall>z\<in>set ys. x \<le> z" using Cons.prems(1) True by auto
      then have "insort x ys = x # ys" by (rule insort_is_Cons)
      with IH True Suc show ?thesis by simp
    next
      case False
      with yx have "\<not> x \<le> y" by simp
      with IH Suc show ?thesis by simp
    qed
  qed
qed

lemma bisect_insort_sorted:
  assumes "sorted a"
  shows "bisect_insort a x = insort x a"
proof -
  from bisect_right_spec [OF assms, of 0 "length a" x]
  have "bisect_right a x 0 (length a) \<le> length a"
    "\<forall>k<bisect_right a x 0 (length a). a ! k \<le> x"
    "\<forall>k. bisect_right a x 0 (length a) \<le> k \<and> k < length a \<longrightarrow> x < a ! k"
    by auto
  from insert_at_is_insort [OF assms this] show ?thesis
    by (simp add: bisect_insort_def Let_def)
qed

lemma set_bisect_insort: "set (bisect_insort a x) = insert x (set a)"
proof -
  have "set (take r a @ x # drop r a) = insert x (set (take r a @ drop r a))" for r
    by (simp only: set_append set_simps) blast
  then show ?thesis by (simp add: bisect_insort_def Let_def)
qed

lemma remove_loop_vacate:
  "sorted (free z) \<Longrightarrow> \<forall>j\<in>set idxs. j < length (spots z) \<Longrightarrow>
   remove_loop z idxs = (vacate z idxs, None)"
proof (induction idxs arbitrary: z)
  case Nil
  show ?case by (simp add: vacate_def)
next
  case (Cons x rest)
  let ?z1 = "z\<lparr>spots := (spots z)[x := None], free := bisect_insort (free z) x\<rparr>"
  have fr: "free ?z1 = insort x (free z)"
    using Cons.prems(1) by (simp add: bisect_insort_sorted)
  then have s1: "sorted (free ?z1)" using Cons.prems(1) by (simp add: sorted_insort)
  have r1: "\<forall>j\<in>set rest. j < length (spots ?z1)" using Cons.prems(2) by simp
  have "vacate ?z1 rest = vacate z (x # rest)"
    using Cons.prems(1) by (simp add: vacate_def bisect_insort_sorted)
  with Cons.IH [OF s1 r1] Cons.prems(2) show ?case by simp
qed

lemma filter_without_nth:
  assumes "distinct fr" "p < length fr"
  shows "filter (\<lambda>y. y \<notin> insert (fr ! p) S) fr
         = filter (\<lambda>y. y \<notin> S) (take p fr @ drop (Suc p) fr)"
proof -
  have d: "distinct (take p fr @ fr ! p # drop (Suc p) fr)"
    using assms by (simp add: id_take_nth_drop [symmetric])
  then have a: "filter (\<lambda>y. y \<notin> insert (fr ! p) S) (take p fr) = filter (\<lambda>y. y \<notin> S) (take p fr)"
    by (intro filter_cong) auto
  from d have b: "filter (\<lambda>y. y \<notin> insert (fr ! p) S) (drop (Suc p) fr)
                  = filter (\<lambda>y. y \<notin> S) (drop (Suc p) fr)"
    by (intro filter_cong) auto
  have "filter (\<lambda>y. y \<notin> insert (fr ! p) S) fr
        = filter (\<lambda>y. y \<notin> insert (fr ! p) S) (take p fr @ fr ! p # drop (Suc p) fr)"
    using assms(2) by (simp add: id_take_nth_drop [symmetric])
  also have "\<dots> = filter (\<lambda>y. y \<notin> S) (take p fr @ drop (Suc p) fr)"
    using a b by simp
  finally show ?thesis .
qed

lemma park_adjacent_loop_occupy:
  "distinct (free z) \<Longrightarrow> p + k \<le> length (free z) \<Longrightarrow>
   \<forall>x\<in>set (take k (drop p (free z))). x < length (spots z) \<Longrightarrow>
   park_adjacent_loop z p occ k acc
     = (occupy z (take k (drop p (free z))) occ, Inr (acc @ take k (drop p (free z))))"
proof (induction k arbitrary: z acc)
  case 0
  show ?case by (simp add: occupy_def)
next
  case (Suc k)
  let ?fr = "free z"
  let ?x = "?fr ! p"
  let ?fr2 = "take p ?fr @ drop (Suc p) ?fr"
  let ?z2 = "z\<lparr>free := ?fr2, spots := (spots z)[?x := Some occ]\<rparr>"
  from Suc.prems(2) have p: "p < length ?fr" by simp
  have win: "take (Suc k) (drop p ?fr) = ?x # take k (drop (Suc p) ?fr)"
    using p by (simp add: Cons_nth_drop_Suc [symmetric])
  with Suc.prems(3) have x: "?x < length (spots z)" by simp
  have dr: "drop p ?fr2 = drop (Suc p) ?fr" using p by simp
  have "distinct (take p ?fr @ ?x # drop (Suc p) ?fr)"
    using Suc.prems(1) p by (simp add: id_take_nth_drop [symmetric])
  then have d2: "distinct (free ?z2)" by simp
  have l2: "p + k \<le> length (free ?z2)" using Suc.prems(2) p by simp
  have r2: "\<forall>y\<in>set (take k (drop p (free ?z2))). y < length (spots ?z2)"
    using Suc.prems(3) win dr by simp
  have occ: "occupy ?z2 (take k (drop (Suc p) ?fr)) occ = occupy z (take (Suc k) (drop p ?fr)) occ"
    unfolding win using filter_without_nth [OF Suc.prems(1) p]
    by (simp add: occupy_def)
  from Suc.IH [OF d2 l2 r2, of "acc @ [?x]"] p x occ show ?case
    by (simp add: Let_def dr win)
qed

lemma set_fold_insort: "set (fold insort xs ys) = set xs \<union> set ys"
  by (induction xs arbitrary: ys) (auto simp: set_insort_key)

lemma sorted_fold_insort: "sorted ys \<Longrightarrow> sorted (fold insort xs ys)"
  by (induction xs arbitrary: ys) (auto simp: sorted_insort)

lemma distinct_fold_insort:
  "distinct (fold insort xs ys) \<longleftrightarrow> distinct xs \<and> distinct ys \<and> set xs \<inter> set ys = {}"
  by (induction xs arbitrary: ys) (auto simp: distinct_insort set_insort_key)

lemma zone_ok_occupy:
  assumes "zone_ok z"
  shows "zone_ok (occupy z idxs occ)"
proof -
  from assms have s: "sorted_wrt (<) (free z)"
    and f: "set (free z) = {i. i < length (spots z) \<and> spots z ! i = None}"
    by (simp_all add: zone_ok_def)
  have n: "fold (\<lambda>x s. s[x := Some occ]) idxs (spots z) ! i = None
           \<longleftrightarrow> i \<notin> set idxs \<and> spots z ! i = None"
    if "i < length (spots z)" for i
    using that by (simp add: nth_fold_update)
  have "set (filter (\<lambda>x. x \<notin> set idxs) (free z)) = {i. i \<in> set (free z) \<and> i \<notin> set idxs}"
    by auto
  also have "\<dots> = {i. i < length (spots z) \<and> i \<notin> set idxs \<and> spots z ! i = None}"
    unfolding f by blast
  also have "\<dots> = {i. i < length (spots z)
                      \<and> fold (\<lambda>x s. s[x := Some occ]) idxs (spots z) ! i = None}"
    using n by blast
  finally have "set (filter (\<lambda>x. x \<notin> set idxs) (free z))
      = {i. i < length (spots z) \<and> fold (\<lambda>x s. s[x := Some occ]) idxs (spots z) ! i = None}" .
  moreover have "sorted_wrt (<) (filter (\<lambda>x. x \<notin> set idxs) (free z))"
    using s by (rule sorted_wrt_filter)
  ultimately show ?thesis
    unfolding zone_ok_def occupy_def by (simp del: set_filter)
qed

lemma zone_ok_vacate:
  assumes "zone_ok z" "distinct idxs"
    and held: "\<forall>j\<in>set idxs. j < length (spots z) \<and> spots z ! j \<noteq> None"
  shows "zone_ok (vacate z idxs)"
proof -
  from assms(1) have s: "sorted (free z)" "distinct (free z)"
    and f: "set (free z) = {i. i < length (spots z) \<and> spots z ! i = None}"
    by (simp_all add: zone_ok_def strict_sorted_iff)
  from held f have "set idxs \<inter> set (free z) = {}" by auto
  with s assms(2) have "sorted_wrt (<) (fold insort idxs (free z))"
    by (simp add: strict_sorted_iff sorted_fold_insort distinct_fold_insort)
  moreover have "set (fold insort idxs (free z))
      = {i. i < length (spots z) \<and> fold (\<lambda>x s. s[x := None]) idxs (spots z) ! i = None}"
    using held f by (auto simp: set_fold_insort nth_fold_update)
  ultimately show ?thesis by (simp add: zone_ok_def vacate_def)
qed

lemma vacate_occupy:
  assumes "zone_ok z" "set idxs \<subseteq> set (free z)" "distinct idxs"
  shows "vacate (occupy z idxs occ) idxs = z"
proof -
  from assms(1) have s: "sorted (free z)" "distinct (free z)"
    and f: "set (free z) = {i. i < length (spots z) \<and> spots z ! i = None}"
    by (simp_all add: zone_ok_def strict_sorted_iff)
  let ?fr = "fold insort idxs (filter (\<lambda>x. x \<notin> set idxs) (free z))"
  have "sorted ?fr" using s(1) by (intro sorted_fold_insort sorted_wrt_filter)
  moreover have "distinct ?fr" using s(2) assms(3) by (auto simp: distinct_fold_insort)
  moreover have "set ?fr = set (free z)" using assms(2) by (auto simp: set_fold_insort)
  ultimately have fr: "?fr = free z" using s by (intro sorted_distinct_set_unique)
  have sp: "fold (\<lambda>x s. s[x := None]) idxs (fold (\<lambda>x s. s[x := Some occ]) idxs (spots z)) = spots z"
    using assms(2) f by (intro nth_equalityI) (auto simp: nth_fold_update)
  show ?thesis by (simp add: vacate_def occupy_def fr sp)
qed

lemma find_adjacent_loop_nonpositive:
  "n \<le> 0 \<Longrightarrow> find_adjacent_loop fr n first 0 acc = Inl IndexError"
  by (subst find_adjacent_loop.simps) (simp add: Let_def)

lemma find_contiguous_run_first:
  "first \<Longrightarrow> find_contiguous_run fs len first c found = xs \<Longrightarrow>
   xs = found \<or> (\<exists>i. xs = found @ [i] \<and> i + len \<le> length fs \<and> 0 < len)"
proof (induction fs len first c found rule: find_contiguous_run.induct)
  case (1 fs len first_only cursor found)
  show ?case
  proof (cases "len = 0 \<or> length fs - cursor < len")
    case True
    with "1.prems" show ?thesis by (subst (asm) find_contiguous_run.simps) simp
  next
    case False
    then have le: "cursor + len \<le> length fs" "0 < len" by linarith+
    let ?w = "take len (drop cursor fs)"
    show ?thesis
    proof (cases "int (last ?w) - int (hd ?w) = int len - 1")
      case True
      with "1.prems" False have "xs = found @ [cursor]"
        by (subst (asm) find_contiguous_run.simps) (simp add: Let_def)
      with le show ?thesis by simp
    next
      case False
      with "1.prems" \<open>\<not> (len = 0 \<or> length fs - cursor < len)\<close>
      have "find_contiguous_run fs len first_only (cursor + 1) found = xs"
        by (subst (asm) find_contiguous_run.simps) (simp add: Let_def)
      from "1.IH"(2) [OF \<open>\<not> (len = 0 \<or> length fs - cursor < len)\<close> refl False "1.prems"(1) this]
      show ?thesis .
    qed
  qed
qed

lemma find_adjacent_free_spots_first:
  assumes "find_adjacent_free_spots fr n True = Inr xs"
  shows "xs = [] \<or> (\<exists>i. xs = [i] \<and> 0 < n \<and> i + nat n \<le> length fr)"
proof (cases "n \<le> 0")
  case True
  with assms show ?thesis
    by (simp add: find_adjacent_free_spots_def find_adjacent_loop_nonpositive)
next
  case False
  then have pos: "0 < nat n" and n: "int (nat n) = n" by simp_all
  from find_adjacent_loop_refines [OF pos, of fr True 0 "[]"] assms False
  have "find_contiguous_run fr (nat n) True 0 [] = xs"
    by (simp add: find_adjacent_free_spots_def n)
  from find_contiguous_run_first [OF _ this] False show ?thesis by auto
qed

lemma zone_update_swap:
  "(z::Zone)\<lparr>free := a, spots := b\<rparr> = z\<lparr>spots := b, free := a\<rparr>"
  by (rule Zone.equality) simp_all

lemma park_single_occupy:
  assumes "zone_ok (zones l zt ! zi)" "free (zones l zt ! zi) \<noteq> []"
  shows "park_single l zt zi v =
     (set_zone l zt zi (occupy (zones l zt ! zi) [hd (free (zones l zt ! zi))] (vid v))
        \<lparr>count := count_add (count l) (vtype v) 1\<rparr>,
      Inr (v\<lparr>location := Some (ztype (zones l zt ! zi), zi, [hd (free (zones l zt ! zi))])\<rparr>))"
proof -
  let ?z = "zones l zt ! zi"
  from assms(2) obtain x rest where fr: "free ?z = x # rest" by (cases "free ?z") auto
  from assms(1) fr have x: "x < length (spots ?z)" and d: "x \<notin> set rest"
    by (auto simp: zone_ok_def)
  from d have "filter (\<lambda>y. y \<noteq> x) rest = rest" by (auto simp: filter_id_conv)
  with fr x show ?thesis
    by (simp add: park_single_def Let_def occupy_def zone_update_swap)
qed

subsection \<open>The parked count\<close>

text \<open>
  Claim C1, evaluated on the code. In a lot with one regular zone of three spots a van is
  parked across the spots 0, 1 and 2. The count of vans, 0 before, is 3 after this one
  successful \<^verbatim>\<open>add_vehicle\<close> (the claim says 1), and 2 after the van is removed again
  (the claim says 0).
\<close>

theorem van_in_regular_counts_three:
  "num_parked_vehicle lot_one_regular V_VAN = 0
   \<and> snd (add_vehicle lot_one_regular ''van'' V_VAN) = Inr van_in_regular
   \<and> num_parked_vehicle (fst (add_vehicle lot_one_regular ''van'' V_VAN)) V_VAN = 3
   \<and> snd (remove_vehicle (fst (add_vehicle lot_one_regular ''van'' V_VAN)) van_in_regular)
       = Inr Removed
   \<and> num_parked_vehicle
        (fst (remove_vehicle (fst (add_vehicle lot_one_regular ''van'' V_VAN)) van_in_regular))
        V_VAN = 2"
  by code_simp

subsection \<open>The search through the zones\<close>

text \<open>
  Claim C2, evaluated on the code. The lot has two regular zones of three spots; a car
  holds spot 0 of the first, so the free lists are \<open>[1, 2]\<close> and \<open>[0, 1, 2]\<close>. The second
  zone has a run of three, and \<^verbatim>\<open>park_adjacent\<close> called on it would place the van on
  its spots 0, 1 and 2. But \<^verbatim>\<open>add_vehicle\<close> returns the van without a location: the
  first zone has free spots and no run, and the search ends there. Both free lists are as
  before.
\<close>

theorem van_not_parked_in_second_zone:
  "map free (zones lot_two_regular_one_car Z_REGULAR) = [[1, 2], [0, 1, 2]]
   \<and> find_adjacent_free_spots [0, 1, 2] 3 True = Inr [0]
   \<and> location (projr (snd (park_adjacent lot_two_regular_one_car Z_REGULAR 1
                               (Vehicle_init ''van'' V_VAN))))
       = Some (Z_REGULAR, 1, [0, 1, 2])
   \<and> snd (add_vehicle lot_two_regular_one_car ''van'' V_VAN) = Inr (Vehicle_init ''van'' V_VAN)
   \<and> location (Vehicle_init ''van'' V_VAN) = None
   \<and> map free (zones (fst (add_vehicle lot_two_regular_one_car ''van'' V_VAN)) Z_REGULAR)
       = [[1, 2], [0, 1, 2]]"
  by code_simp

subsection \<open>A rejected vehicle\<close>

lemma park_single_located:
  "park_single l zt zi v = (l', Inr v') \<Longrightarrow> location v' \<noteq> None"
  by (auto simp: park_single_def Let_def split: list.splits if_splits)

lemma park_adjacent_unplaced:
  "park_adjacent l zt zi v = (l', Inr v') \<Longrightarrow> location v' = None \<Longrightarrow> l' = l \<and> v' = v"
  by (auto simp: park_adjacent_def Let_def split: if_splits sum.splits prod.splits)

lemma park_zone_loop_unplaced:
  "park_zone_loop l zt v zis = (l', Inr (v', p)) \<Longrightarrow> location v' = None \<Longrightarrow> l' = l \<and> v' = v"
proof (induction zis)
  case Nil
  then show ?case by simp
next
  case (Cons zi zis)
  then show ?case
    by (auto simp: Let_def split: if_splits sum.splits prod.splits
             dest: park_single_located park_adjacent_unplaced)
qed

lemma park_zone_loop_not_parked:
  "park_zone_loop l zt v zis = (l', Inr (v', False)) \<Longrightarrow> l' = l \<and> v' = v"
  by (induction zis) (auto simp: Let_def split: if_splits sum.splits prod.splits)

lemma park_type_loop_unplaced:
  "park_type_loop l v zts = (l', Inr v') \<Longrightarrow> location v' = None \<Longrightarrow> l' = l"
proof (induction zts arbitrary: l v)
  case Nil
  then show ?case by simp
next
  case (Cons zt zts)
  obtain l1 r1 where z: "park_zone_loop l zt v [0..<length (zones l zt)] = (l1, r1)"
    by (cases "park_zone_loop l zt v [0..<length (zones l zt)]")
  show ?case
  proof (cases r1)
    case (Inl e)
    with Cons.prems z show ?thesis by simp
  next
    case (Inr vp)
    obtain v1 p where vp: "vp = (v1, p)" by (cases vp)
    show ?thesis
    proof (cases p)
      case True
      with Cons.prems z Inr vp have "l' = l1" "v' = v1" by simp_all
      with park_zone_loop_unplaced [of l zt v _ l1 v1 p] z Inr vp Cons.prems(2)
      show ?thesis by simp
    next
      case False
      with park_zone_loop_not_parked [of l zt v _ l1 v1] z Inr vp
      have "l1 = l" "v1 = v" by simp_all
      moreover from Cons.prems z Inr vp False
      have "park_type_loop l1 v1 zts = (l', Inr v')" by simp
      ultimately show ?thesis using Cons.IH Cons.prems(2) by simp
    qed
  qed
qed

text \<open>
  Claim C4. In every state of the lot, when \<^verbatim>\<open>add_vehicle\<close> returns a vehicle without a
  location (no room to park), the lot it leaves is the lot it found: the slots and the free
  list of every zone, the counts and the stored vehicles are unchanged.
\<close>

theorem rejected_add_vehicle_changes_nothing:
  "add_vehicle l i t = (l', Inr v) \<Longrightarrow> location v = None \<Longrightarrow> l' = l"
  by (auto simp: add_vehicle_def park_first_available_def
           split: prod.splits sum.splits if_splits dest: park_type_loop_unplaced)

theorem rejected_add_vehicle_changes_nothing_witness:
  "map free (zones lot_compact_full Z_COMPACT) = [[]]
   \<and> snd (add_vehicle lot_compact_full ''car2'' V_CAR) = Inr (Vehicle_init ''car2'' V_CAR)
   \<and> location (Vehicle_init ''car2'' V_CAR) = None
   \<and> fst (add_vehicle lot_compact_full ''car2'' V_CAR) = lot_compact_full"
proof -
  have full: "map free (zones lot_compact_full Z_COMPACT) = [[]]" by code_simp
  have r: "snd (add_vehicle lot_compact_full ''car2'' V_CAR) = Inr (Vehicle_init ''car2'' V_CAR)"
    by code_simp
  have n: "location (Vehicle_init ''car2'' V_CAR) = None" by (simp add: Vehicle_init_def)
  from r have "add_vehicle lot_compact_full ''car2'' V_CAR
      = (fst (add_vehicle lot_compact_full ''car2'' V_CAR), Inr (Vehicle_init ''car2'' V_CAR))"
    by (simp add: prod_eq_iff)
  from rejected_add_vehicle_changes_nothing [OF this n] full r n show ?thesis by simp
qed

subsection \<open>Removing a vehicle that is not in the lot\<close>

text \<open>
  Claim C9. In every state of the lot, \<^verbatim>\<open>remove_vehicle\<close> on a vehicle whose identifier is
  not among the stored vehicles (never parked, or removed before) raises nothing, takes the
  branch that logs the warning, and leaves the lot as it was.
\<close>

theorem remove_unknown_vehicle_warns:
  "vehicles l (vid v) = None \<Longrightarrow> remove_vehicle l v = (l, Inr Warned_not_in_lot)"
  by (simp add: remove_vehicle_def)

theorem remove_unknown_vehicle_warns_witness:
  "vehicles lot_van_released (vid van_in_regular) = None
   \<and> remove_vehicle lot_van_released van_in_regular = (lot_van_released, Inr Warned_not_in_lot)"
proof -
  have h: "vehicles lot_van_released (vid van_in_regular) = None" by code_simp
  from remove_unknown_vehicle_warns [OF h] h show ?thesis by simp
qed

subsection \<open>Availability for vans\<close>

text \<open>
  Claim C10. \<^verbatim>\<open>vehicle_availability\<close> for a van reads the size of the first regular zone
  before it looks at the regular zones: in a lot without a regular zone it raises
  \<^verbatim>\<open>IndexError\<close>, whatever the large zones hold, and whenever it returns a number the lot has
  a regular zone.
\<close>

theorem van_availability_needs_regular_zone:
  "(zones l Z_REGULAR = [] \<longrightarrow> vehicle_availability l V_VAN = Inl IndexError)
   \<and> (\<forall>n. vehicle_availability l V_VAN = Inr n \<longrightarrow> zones l Z_REGULAR \<noteq> [])"
  by (auto simp: vehicle_availability_def Let_def)

theorem van_availability_needs_regular_zone_witness:
  "zones lot_large_only Z_REGULAR = []
   \<and> map free (zones lot_large_only Z_LARGE) = [[0, 1, 2]]
   \<and> vehicle_availability lot_large_only V_VAN = Inl IndexError
   \<and> vehicle_availability lot_one_regular V_VAN = Inr 1
   \<and> zones lot_one_regular Z_REGULAR \<noteq> []"
proof -
  have h: "zones lot_large_only Z_REGULAR = []" by code_simp
  have f: "map free (zones lot_large_only Z_LARGE) = [[0, 1, 2]]" by code_simp
  have a: "vehicle_availability lot_one_regular V_VAN = Inr 1" by code_simp
  from van_availability_needs_regular_zone [of lot_large_only] h
  have "vehicle_availability lot_large_only V_VAN = Inl IndexError" by simp
  moreover from van_availability_needs_regular_zone [of lot_one_regular] a
  have "zones lot_one_regular Z_REGULAR \<noteq> []" by blast
  ultimately show ?thesis using h f a by simp
qed

subsection \<open>What parking does to a well-formed lot\<close>

lemma park_single_post:
  assumes "zone_ok (zones l zt ! zi)" "free (zones l zt ! zi) \<noteq> []"
    "zi < length (zones l zt)" "ztype (zones l zt ! zi) = zt"
  shows "\<exists>l' v'. park_single l zt zi v = (l', Inr v') \<and> placed_in l v l' v'"
proof -
  let ?z = "zones l zt ! zi"
  let ?x = "hd (free ?z)"
  have "placed_in l v
     (set_zone l zt zi (occupy ?z [?x] (vid v))\<lparr>count := count_add (count l) (vtype v) 1\<rparr>)
     (v\<lparr>location := Some (zt, zi, [?x])\<rparr>)"
    unfolding placed_in_def using assms(2,3)
    by (intro exI [of _ zt] exI [of _ zi] exI [of _ "[?x]"] exI [of _ 1]) simp
  with park_single_occupy [OF assms(1,2), of v] assms(4) show ?thesis by simp
qed

lemma park_adjacent_post:
  assumes ok: "zone_ok (zones l zt ! zi)"
    and zi: "zi < length (zones l zt)" and zt: "ztype (zones l zt ! zi) = zt"
    and res: "park_adjacent l zt zi v = (l', r)"
  shows "case r of Inl e \<Rightarrow> l' = l | Inr v' \<Rightarrow> (l' = l \<and> v' = v) \<or> placed_in l v l' v'"
proof -
  let ?z = "zones l zt ! zi"
  let ?n = "\<lceil>vsize v / zsize ?z\<rceil>"
  show ?thesis
  proof (cases "zsize ?z = 0")
    case True
    with res show ?thesis by (auto simp: park_adjacent_def)
  next
    case nz: False
    show ?thesis
    proof (cases "find_adjacent_free_spots (free ?z) ?n True")
      case (Inl e)
      with res nz show ?thesis by (auto simp: park_adjacent_def Let_def)
    next
      case (Inr xs)
      from find_adjacent_free_spots_first [OF Inr]
      consider "xs = []" | i where "xs = [i]" "0 < ?n" "i + nat ?n \<le> length (free ?z)"
        by blast
      then show ?thesis
      proof cases
        case 1
        with res nz Inr show ?thesis by (auto simp: park_adjacent_def Let_def)
      next
        case 2
        let ?W = "take (nat ?n) (drop i (free ?z))"
        from ok have d: "distinct (free ?z)"
          and f: "set (free ?z) = {j. j < length (spots ?z) \<and> spots ?z ! j = None}"
          by (simp_all add: zone_ok_def strict_sorted_iff)
        have sub: "set ?W \<subseteq> set (free ?z)"
          by (meson order_trans set_take_subset set_drop_subset)
        with f have rng: "\<forall>x\<in>set ?W. x < length (spots ?z)" by auto
        have k: "nat (int i + (?n - 1) + 1 - int i) = nat ?n" by simp
        from park_adjacent_loop_occupy [OF d 2(3) rng, of "vid v" "[]"]
        have loop: "park_adjacent_loop ?z i (vid v) (nat ?n) [] = (occupy ?z ?W (vid v), Inr ?W)"
          by simp
        have len: "length ?W = nat ?n" using 2(3) by simp
        with 2(2) have ne: "?W \<noteq> []" by auto
        have dW: "distinct ?W" using d by simp
        from res nz Inr 2(1) loop k zt
        have l': "l' = set_zone l zt zi (occupy ?z ?W (vid v))
                        \<lparr>count := count_add (count l) (vtype v) ?n\<rparr>"
          and r: "r = Inr (v\<lparr>location := Some (zt, zi, ?W)\<rparr>)"
          by (simp_all add: park_adjacent_def Let_def)
        have "placed_in l v l' (v\<lparr>location := Some (zt, zi, ?W)\<rparr>)"
          unfolding placed_in_def l' using zi ne dW sub
          by (intro exI [of _ zt] exI [of _ zi] exI [of _ ?W] exI [of _ ?n]) simp
        with r show ?thesis by simp
      qed
    qed
  qed
qed

lemma zones_ok_nth:
  "zones_ok l \<Longrightarrow> zi < length (zones l zt) \<Longrightarrow>
   zone_ok (zones l zt ! zi) \<and> ztype (zones l zt ! zi) = zt"
  unfolding zones_ok_def using nth_mem by blast

lemma park_zone_loop_post:
  assumes "zones_ok l" "\<forall>zi\<in>set zis. zi < length (zones l zt)"
    and "park_zone_loop l zt v zis = (l', r)"
  shows "case r of Inl e \<Rightarrow> l' = l
         | Inr (v', p) \<Rightarrow> (l' = l \<and> v' = v) \<or> placed_in l v l' v'"
  using assms(2,3)
proof (induction zis)
  case Nil
  then show ?case by auto
next
  case (Cons zi zis)
  let ?z = "zones l zt ! zi"
  from Cons.prems(1) have zi: "zi < length (zones l zt)" by simp
  from zones_ok_nth [OF assms(1) zi] have ok: "zone_ok ?z" and zt: "ztype ?z = zt"
    by simp_all
  show ?case
  proof (cases "free ?z = []")
    case True
    with Cons show ?thesis by simp
  next
    case ne: False
    show ?thesis
    proof (cases "vsize v \<le> zsize ?z")
      case True
      from park_single_post [OF ok ne zi zt, of v]
      obtain l1 v1 where "park_single l zt zi v = (l1, Inr v1)" "placed_in l v l1 v1"
        by blast
      with Cons.prems(2) ne True show ?thesis by (auto simp: Let_def)
    next
      case big: False
      show ?thesis
      proof (cases "adjacent ?z")
        case True
        obtain l1 r1 where pa: "park_adjacent l zt zi v = (l1, r1)"
          by (cases "park_adjacent l zt zi v")
        from park_adjacent_post [OF ok zi zt pa] pa Cons.prems(2) ne big True
        show ?thesis by (auto simp: Let_def split: sum.splits)
      next
        case False
        with Cons ne big show ?thesis by (simp add: Let_def)
      qed
    qed
  qed
qed

lemma park_type_loop_post:
  assumes "zones_ok l" "park_type_loop l v zts = (l', r)"
  shows "case r of Inl e \<Rightarrow> l' = l | Inr v' \<Rightarrow> (l' = l \<and> v' = v) \<or> placed_in l v l' v'"
  using assms(2)
proof (induction zts)
  case Nil
  then show ?case by auto
next
  case (Cons zt zts)
  obtain l1 r1 where z: "park_zone_loop l zt v [0..<length (zones l zt)] = (l1, r1)"
    by (cases "park_zone_loop l zt v [0..<length (zones l zt)]")
  have "\<forall>zi\<in>set [0..<length (zones l zt)]. zi < length (zones l zt)" by simp
  note post = park_zone_loop_post [OF assms(1) this z]
  show ?case
  proof (cases r1)
    case (Inl e)
    with post z Cons.prems show ?thesis by auto
  next
    case (Inr vp)
    obtain v1 p where vp: "vp = (v1, p)" by (cases vp)
    show ?thesis
    proof (cases p)
      case True
      with post z Cons.prems Inr vp show ?thesis by auto
    next
      case False
      with park_zone_loop_not_parked [of l zt v _ l1 v1] z Inr vp
      have "l1 = l" "v1 = v" by simp_all
      moreover from Cons.prems z Inr vp False
      have "park_type_loop l1 v1 zts = (l', r)" by simp
      ultimately show ?thesis using Cons.IH by simp
    qed
  qed
qed

lemma add_vehicle_raises:
  "zones_ok l \<Longrightarrow> add_vehicle l i t = (l', Inl e) \<Longrightarrow> l' = l"
  using park_type_loop_post [of l "Vehicle_init i t" "priority (Vehicle_init i t)"]
  by (auto simp: add_vehicle_def park_first_available_def split: prod.splits sum.splits if_splits)

lemma vid_Vehicle_init [simp]: "vid (Vehicle_init i t) = i"
  by (cases t) (simp_all add: Vehicle_init_def)

lemma location_Vehicle_init [simp]: "location (Vehicle_init i t) = None"
  by (cases t) (simp_all add: Vehicle_init_def)

lemma add_vehicle_returns:
  assumes "zones_ok l" "add_vehicle l i t = (l', Inr v)"
  shows "(l' = l \<and> v = Vehicle_init i t)
         \<or> (\<exists>l1. placed_in l (Vehicle_init i t) l1 v
                 \<and> l' = l1\<lparr>vehicles := (vehicles l1)(i \<mapsto> v)\<rparr>)"
proof -
  let ?v0 = "Vehicle_init i t"
  obtain l1 r1 where p: "park_type_loop l ?v0 (priority ?v0) = (l1, r1)"
    by (cases "park_type_loop l ?v0 (priority ?v0)")
  from assms(2) p obtain v1 where r1: "r1 = Inr v1"
    by (cases r1) (auto simp: add_vehicle_def park_first_available_def)
  from park_type_loop_post [OF assms(1) p] r1
  consider "l1 = l" "v1 = ?v0" | "placed_in l ?v0 l1 v1" by auto
  then show ?thesis
  proof cases
    case 1
    with assms(2) p r1 show ?thesis
      by (simp add: add_vehicle_def park_first_available_def)
  next
    case 2
    then have "location v1 \<noteq> None" "vid v1 = i" by (auto simp: placed_in_def)
    with assms(2) p r1 2 show ?thesis
      by (auto simp: add_vehicle_def park_first_available_def)
  qed
qed

subsection \<open>The invariant is kept\<close>

lemma zones_set_zone [simp]:
  "zones (set_zone l zt zi z) = (zones l)(zt := (zones l zt)[zi := z])"
  "count (set_zone l zt zi z) = count l"
  "vehicles (set_zone l zt zi z) = vehicles l"
  by (simp_all add: set_zone_def)

lemma spots_occupy [simp]:
  "length (spots (occupy z idxs occ)) = length (spots z)"
  "ztype (occupy z idxs occ) = ztype z"
  by (simp_all add: occupy_def)

lemma spots_vacate [simp]:
  "length (spots (vacate z idxs)) = length (spots z)"
  "ztype (vacate z idxs) = ztype z"
  by (simp_all add: vacate_def)

lemma nth_spots_occupy:
  "j < length (spots z) \<Longrightarrow>
   spots (occupy z idxs occ) ! j = (if j \<in> set idxs then Some occ else spots z ! j)"
  by (simp add: occupy_def nth_fold_update)

lemma nth_spots_vacate:
  "j < length (spots z) \<Longrightarrow>
   spots (vacate z idxs) ! j = (if j \<in> set idxs then None else spots z ! j)"
  by (simp add: vacate_def nth_fold_update)

lemma zones_ok_update:
  assumes "zones_ok l" "zones l' = (zones l)(zt := (zones l zt)[zi := z'])"
    "zone_ok z'" "ztype z' = zt"
  shows "zones_ok l'"
proof -
  have "set ((zones l zt)[zi := z']) \<subseteq> insert z' (set (zones l zt))"
    by (rule set_update_subset_insert)
  with assms show ?thesis unfolding zones_ok_def by (auto split: if_splits)
qed

text \<open>A placed vehicle stays placed when the slots that hold it are left alone.\<close>

lemma placed_ok_update:
  assumes p: "placed_ok l w"
    and z: "zones l' = (zones l)(zt := (zones l zt)[zi := z'])"
    and len: "length (spots z') = length (spots (zones l zt ! zi))"
    and keep: "\<And>j. j < length (spots (zones l zt ! zi)) \<Longrightarrow>
                 spots (zones l zt ! zi) ! j = Some (vid w) \<Longrightarrow> spots z' ! j = Some (vid w)"
  shows "placed_ok l' w"
proof -
  from p obtain zt2 zi2 idxs2 where loc: "location w = Some (zt2, zi2, idxs2)"
    and zi2: "zi2 < length (zones l zt2)" and d: "distinct idxs2"
    and held: "\<forall>j\<in>set idxs2. j < length (spots (zones l zt2 ! zi2))
                 \<and> spots (zones l zt2 ! zi2) ! j = Some (vid w)"
    by (auto simp: placed_ok_def split: option.splits)
  have "\<forall>j\<in>set idxs2. j < length (spots (zones l' zt2 ! zi2))
                 \<and> spots (zones l' zt2 ! zi2) ! j = Some (vid w)"
  proof (cases "zt2 = zt \<and> zi2 = zi")
    case True
    with zi2 z have "zones l' zt2 ! zi2 = z'" by simp
    with True held len keep show ?thesis by auto
  next
    case False
    with z have "zones l' zt2 ! zi2 = zones l zt2 ! zi2" by (auto simp: nth_list_update)
    with held show ?thesis by simp
  qed
  moreover from zi2 z have "zi2 < length (zones l' zt2)" by auto
  ultimately show ?thesis using loc d by (simp add: placed_ok_def)
qed

lemma lot_invD:
  assumes "lot_inv l vs"
  shows "zones_ok l"
    and "vehicles l i = Some w \<Longrightarrow> w \<in> set vs \<and> vid w = i \<and> placed_ok l w"
    and "distinct (map vid vs)"
  using assms unfolding lot_inv_def by blast+

lemma lot_invI:
  assumes "zones_ok l"
    and "\<And>i w. vehicles l i = Some w \<Longrightarrow> w \<in> set vs \<and> vid w = i \<and> placed_ok l w"
    and "distinct (map vid vs)"
  shows "lot_inv l vs"
  using assms unfolding lot_inv_def by blast

lemma lot_inv_rejected:
  assumes "lot_inv l vs" "vid v \<notin> vid ` set vs"
  shows "lot_inv l (v # vs)"
proof (rule lot_invI)
  show "zones_ok l" using assms(1) by (rule lot_invD)
  show "distinct (map vid (v # vs))" using lot_invD(3) [OF assms(1)] assms(2) by simp
  fix i w assume "vehicles l i = Some w"
  from lot_invD(2) [OF assms(1) this]
  show "w \<in> set (v # vs) \<and> vid w = i \<and> placed_ok l w" by simp
qed

lemma lot_inv_placed:
  assumes inv: "lot_inv l vs" and fresh: "vid v0 \<notin> vid ` set vs"
    and pl: "placed_in l v0 l1 v"
  shows "lot_inv (l1\<lparr>vehicles := (vehicles l1)(vid v0 \<mapsto> v)\<rparr>) (v # vs)"
proof -
  from pl obtain zt zi idxs n where zi: "zi < length (zones l zt)"
    and sub: "set idxs \<subseteq> set (free (zones l zt ! zi))" and d: "distinct idxs"
    and v: "v = v0\<lparr>location := Some (zt, zi, idxs)\<rparr>"
    and l1: "l1 = set_zone l zt zi (occupy (zones l zt ! zi) idxs (vid v0))
                    \<lparr>count := count_add (count l) (vtype v0) n\<rparr>"
    unfolding placed_in_def by blast
  let ?z = "zones l zt ! zi"
  let ?z' = "occupy ?z idxs (vid v0)"
  let ?l' = "l1\<lparr>vehicles := (vehicles l1)(vid v0 \<mapsto> v)\<rparr>"
  have zs: "zones ?l' = (zones l)(zt := (zones l zt)[zi := ?z'])" by (simp add: l1)
  have vh: "vehicles ?l' = (vehicles l)(vid v0 \<mapsto> v)" by (simp add: l1)
  from zones_ok_nth [OF lot_invD(1) [OF inv] zi]
  have ok: "zone_ok ?z" and zt: "ztype ?z = zt" by simp_all
  from ok have f: "set (free ?z) = {i. i < length (spots ?z) \<and> spots ?z ! i = None}"
    by (simp add: zone_ok_def)
  have vid: "vid v = vid v0" by (simp add: v)
  show ?thesis
  proof (rule lot_invI)
    show "zones_ok ?l'"
      by (rule zones_ok_update [OF lot_invD(1) [OF inv] zs zone_ok_occupy [OF ok]])
         (simp add: zt)
    show "distinct (map vid (v # vs))"
      using lot_invD(3) [OF inv] fresh vid by simp
    fix i w assume st: "vehicles ?l' i = Some w"
    show "w \<in> set (v # vs) \<and> vid w = i \<and> placed_ok ?l' w"
    proof (cases "i = vid v0")
      case True
      with st vh have w: "w = v" by simp
      have "\<forall>j\<in>set idxs. j < length (spots ?z') \<and> spots ?z' ! j = Some (vid v0)"
        using sub f by (auto simp: nth_spots_occupy)
      moreover have "zones ?l' zt ! zi = ?z'" using zi zs by simp
      moreover have "zi < length (zones ?l' zt)" using zi zs by simp
      ultimately have "placed_ok ?l' v"
        using d vid by (simp add: placed_ok_def v)
      with w True vid show ?thesis by simp
    next
      case False
      with st vh have old: "vehicles l i = Some w" by simp
      from lot_invD(2) [OF inv old]
      have w: "w \<in> set vs" "vid w = i" "placed_ok l w" by simp_all
      have "placed_ok ?l' w"
      proof (rule placed_ok_update [OF w(3) zs])
        show "length (spots ?z') = length (spots ?z)" by simp
        fix j assume j: "j < length (spots ?z)" "spots ?z ! j = Some (vid w)"
        with f have "j \<notin> set (free ?z)" by simp
        with sub have "j \<notin> set idxs" by blast
        with j show "spots ?z' ! j = Some (vid w)" by (simp add: nth_spots_occupy)
      qed
      with w show ?thesis by simp
    qed
  qed
qed

lemma remove_vehicle_stored:
  assumes inv: "lot_inv l vs" and v: "v \<in> set vs" and st: "vehicles l (vid v) \<noteq> None"
  shows "\<exists>zt zi idxs.
           location v = Some (zt, zi, idxs) \<and> vehicles l (vid v) = Some v
           \<and> zi < length (zones l zt) \<and> distinct idxs
           \<and> (\<forall>j\<in>set idxs. j < length (spots (zones l zt ! zi))
                  \<and> spots (zones l zt ! zi) ! j = Some (vid v))
           \<and> remove_vehicle l v
               = (set_zone l zt zi (vacate (zones l zt ! zi) idxs)
                    \<lparr>count := count_add (count l) (vtype v) (- 1),
                     vehicles := (vehicles l)(vid v := None)\<rparr>,
                  Inr Removed)"
proof -
  from st obtain w where w: "vehicles l (vid v) = Some w" by auto
  from lot_invD(2) [OF inv w] have "w \<in> set vs" "vid w = vid v" "placed_ok l w"
    by simp_all
  with lot_invD(3) [OF inv] v have "w = v"
    by (meson distinct_map inj_on_eq_iff)
  with w \<open>placed_ok l w\<close> have sv: "vehicles l (vid v) = Some v" and p: "placed_ok l v"
    by simp_all
  from p obtain zt zi idxs where loc: "location v = Some (zt, zi, idxs)"
    and zi: "zi < length (zones l zt)" and d: "distinct idxs"
    and held: "\<forall>j\<in>set idxs. j < length (spots (zones l zt ! zi))
                 \<and> spots (zones l zt ! zi) ! j = Some (vid v)"
    by (auto simp: placed_ok_def split: option.splits)
  from zones_ok_nth [OF lot_invD(1) [OF inv] zi] have "sorted (free (zones l zt ! zi))"
    by (simp add: zone_ok_def strict_sorted_iff)
  from remove_loop_vacate [OF this, of idxs] held
  have "remove_loop (zones l zt ! zi) idxs = (vacate (zones l zt ! zi) idxs, None)" by simp
  with sv loc zi have "remove_vehicle l v
       = (set_zone l zt zi (vacate (zones l zt ! zi) idxs)
            \<lparr>count := count_add (count l) (vtype v) (- 1),
             vehicles := (vehicles l)(vid v := None)\<rparr>,
          Inr Removed)"
    by (simp add: remove_vehicle_def)
  with loc sv zi d held show ?thesis by blast
qed

lemma lot_inv_removed:
  assumes inv: "lot_inv l vs" and sv: "vehicles l (vid v) = Some v"
    and loc: "location v = Some (zt, zi, idxs)"
  shows "lot_inv (set_zone l zt zi (vacate (zones l zt ! zi) idxs)
                    \<lparr>count := c, vehicles := (vehicles l)(vid v := None)\<rparr>) vs"
    (is "lot_inv ?l' vs")
proof -
  let ?z = "zones l zt ! zi"
  let ?z' = "vacate ?z idxs"
  from lot_invD(2) [OF inv sv] loc have zi: "zi < length (zones l zt)" and d: "distinct idxs"
    and held: "\<forall>j\<in>set idxs. j < length (spots ?z) \<and> spots ?z ! j = Some (vid v)"
    by (auto simp: placed_ok_def)
  have zs: "zones ?l' = (zones l)(zt := (zones l zt)[zi := ?z'])" by simp
  from zones_ok_nth [OF lot_invD(1) [OF inv] zi]
  have ok: "zone_ok ?z" and zt: "ztype ?z = zt" by simp_all
  from held have held': "\<forall>j\<in>set idxs. j < length (spots ?z) \<and> spots ?z ! j \<noteq> None" by simp
  show ?thesis
  proof (rule lot_invI)
    show "zones_ok ?l'"
      by (rule zones_ok_update [OF lot_invD(1) [OF inv] zs zone_ok_vacate [OF ok d held']])
         (simp add: zt)
    show "distinct (map vid vs)" using inv by (rule lot_invD)
    fix i w assume "vehicles ?l' i = Some w"
    then have ne: "i \<noteq> vid v" and old: "vehicles l i = Some w"
      by (auto split: if_splits)
    from lot_invD(2) [OF inv old]
    have w: "w \<in> set vs" "vid w = i" "placed_ok l w" by simp_all
    have "placed_ok ?l' w"
    proof (rule placed_ok_update [OF w(3) zs])
      show "length (spots ?z') = length (spots ?z)" by simp
      fix j assume j: "j < length (spots ?z)" "spots ?z ! j = Some (vid w)"
      with held ne w(2) have "j \<notin> set idxs" by auto
      with j show "spots ?z' ! j = Some (vid w)" by (simp add: nth_spots_vacate)
    qed
    with w show "w \<in> set vs \<and> vid w = i \<and> placed_ok ?l' w" by simp
  qed
qed

subsection \<open>Reachable states\<close>

lemma zones_Lot_init:
  "zones (Lot_init (make_zones specs)) zt
     = map (\<lambda>(t, s, n, a). Zone_init t s n a) (filter (\<lambda>(t, s, n, a). t = zt) specs)"
proof -
  have "(\<lambda>z. ztype z = zt) \<circ> (\<lambda>(t, s, n, a). Zone_init t s n a) = (\<lambda>(t, s, n, a). t = zt)"
    by (auto simp: fun_eq_iff Zone_init_def)
  then show ?thesis by (simp add: Lot_init_def make_zones_def filter_map)
qed

lemma zone_ok_Zone_init: "zone_ok (Zone_init t s n a)"
  by (auto simp: zone_ok_def Zone_init_def)

lemma lot_inv_init: "lot_inv (Lot_init (make_zones specs)) []"
proof (rule lot_invI)
  show "zones_ok (Lot_init (make_zones specs))"
    unfolding zones_ok_def zones_Lot_init
    by (auto simp: zone_ok_Zone_init) (simp add: Zone_init_def)
  show "distinct (map vid [])" by simp
  fix i w assume "vehicles (Lot_init (make_zones specs)) i = Some w"
  then show "w \<in> set [] \<and> vid w = i \<and> placed_ok (Lot_init (make_zones specs)) w"
    by (simp add: Lot_init_def)
qed

lemma reachable_lot_inv: "reachable specs l vs \<Longrightarrow> lot_inv l vs"
proof (induction rule: reachable.induct)
  case init
  show ?case by (rule lot_inv_init)
next
  case (add l vs i t l' r)
  note ok = lot_invD(1) [OF add.IH]
  show ?case
  proof (cases r)
    case (Inl e)
    with add.hyps(3) add_vehicle_raises [OF ok] have "l' = l" by blast
    with add.IH Inl show ?thesis by (simp add: returned_def)
  next
    case (Inr v)
    with add.hyps(3) have res: "add_vehicle l i t = (l', Inr v)" by simp
    from add_vehicle_returns [OF ok res]
    consider "l' = l" "v = Vehicle_init i t"
      | l1 where "placed_in l (Vehicle_init i t) l1 v" "l' = l1\<lparr>vehicles := (vehicles l1)(i \<mapsto> v)\<rparr>"
      by blast
    then have "lot_inv l' (v # vs)"
    proof cases
      case 1
      with lot_inv_rejected [OF add.IH, of v] add.hyps(2) show ?thesis by simp
    next
      case 2
      from lot_inv_placed [OF add.IH _ 2(1)] add.hyps(2) 2(2) show ?thesis by simp
    qed
    with Inr show ?thesis by (simp add: returned_def)
  qed
next
  case (remove l vs v l' r)
  show ?case
  proof (cases "vehicles l (vid v) = None")
    case True
    with remove.hyps(3) have "l' = l" by (simp add: remove_vehicle_def)
    with remove.IH show ?thesis by simp
  next
    case False
    from remove_vehicle_stored [OF remove.IH remove.hyps(2) False] remove.hyps(3)
    obtain zt zi idxs where "location v = Some (zt, zi, idxs)" "vehicles l (vid v) = Some v"
      "l' = set_zone l zt zi (vacate (zones l zt ! zi) idxs)
               \<lparr>count := count_add (count l) (vtype v) (- 1),
                vehicles := (vehicles l)(vid v := None)\<rparr>"
      by auto
    with lot_inv_removed [OF remove.IH this(2,1)] show ?thesis by simp
  qed
qed

lemma hd_sorted_Min:
  "sorted xs \<Longrightarrow> xs \<noteq> [] \<Longrightarrow> hd xs = Min (set xs)"
  by (cases xs) (auto intro!: Min_eqI [symmetric])

lemma zone_conservation:
  assumes "zone_ok z"
  shows "length (free z) + occupied_count z = length (spots z)"
proof -
  let ?n = "length (spots z)"
  let ?E = "{i. i < ?n \<and> spots z ! i = None}"
  let ?O = "{i. i < ?n \<and> spots z ! i \<noteq> None}"
  from assms have "distinct (free z)" "set (free z) = ?E"
    by (simp_all add: zone_ok_def strict_sorted_iff)
  then have "length (free z) = card ?E" by (metis distinct_card)
  moreover have "occupied_count z = card ?O"
    by (simp add: occupied_count_def length_filter_conv_card)
  moreover have "card ?E + card ?O = card (?E \<union> ?O)"
    by (rule card_Un_disjoint [symmetric]) auto
  moreover have "?E \<union> ?O = {..<?n}" by auto
  ultimately show ?thesis by simp
qed

lemma slots_kept_update:
  assumes "zones l' = (zones l)(zt := (zones l zt)[zi := z'])" "zi < length (zones l zt)"
    "length (spots z') = length (spots (zones l zt ! zi))"
  shows "map (\<lambda>z. length (spots z)) (zones l' zt2) = map (\<lambda>z. length (spots z)) (zones l zt2)"
proof (cases "zt2 = zt")
  case True
  have "map (\<lambda>z. length (spots z)) ((zones l zt)[zi := z'])
        = (map (\<lambda>z. length (spots z)) (zones l zt))[zi := map (\<lambda>z. length (spots z)) (zones l zt) ! zi]"
    using assms(2,3) by (simp add: map_update)
  with True assms(1) show ?thesis by simp
next
  case False
  with assms(1) show ?thesis by simp
qed

lemma reachable_slots_kept:
  "reachable specs l vs \<Longrightarrow>
   map (\<lambda>z. length (spots z)) (zones l zt)
     = map (\<lambda>z. length (spots z)) (zones (Lot_init (make_zones specs)) zt)"
proof (induction rule: reachable.induct)
  case init
  show ?case by simp
next
  case (add l vs i t l' r)
  note ok = lot_invD(1) [OF reachable_lot_inv [OF add.hyps(1)]]
  have "map (\<lambda>z. length (spots z)) (zones l' zt) = map (\<lambda>z. length (spots z)) (zones l zt)"
  proof (cases r)
    case (Inl e)
    with add.hyps(3) add_vehicle_raises [OF ok] show ?thesis by blast
  next
    case (Inr v)
    with add.hyps(3) have res: "add_vehicle l i t = (l', Inr v)" by simp
    from add_vehicle_returns [OF ok res]
    consider "l' = l"
      | l1 where "placed_in l (Vehicle_init i t) l1 v" "l' = l1\<lparr>vehicles := (vehicles l1)(i \<mapsto> v)\<rparr>"
      by blast
    then show ?thesis
    proof cases
      case 1
      then show ?thesis by simp
    next
      case 2
      from 2(1) obtain zt1 zi idxs n where zi: "zi < length (zones l zt1)"
        and l1: "l1 = set_zone l zt1 zi (occupy (zones l zt1 ! zi) idxs i)
                    \<lparr>count := count_add (count l) (vtype (Vehicle_init i t)) n\<rparr>"
        unfolding placed_in_def by auto
      have "zones l' = (zones l)(zt1 := (zones l zt1)[zi := occupy (zones l zt1 ! zi) idxs i])"
        by (simp add: 2(2) l1)
      from slots_kept_update [OF this zi] show ?thesis by simp
    qed
  qed
  with add.IH show ?case by simp
next
  case (remove l vs v l' r)
  have "map (\<lambda>z. length (spots z)) (zones l' zt) = map (\<lambda>z. length (spots z)) (zones l zt)"
  proof (cases "vehicles l (vid v) = None")
    case True
    with remove.hyps(3) show ?thesis by (simp add: remove_vehicle_def)
  next
    case False
    from remove_vehicle_stored [OF reachable_lot_inv [OF remove.hyps(1)] remove.hyps(2) False]
      remove.hyps(3)
    obtain zt1 zi idxs where zi: "zi < length (zones l zt1)" and
      "l' = set_zone l zt1 zi (vacate (zones l zt1 ! zi) idxs)
               \<lparr>count := count_add (count l) (vtype v) (- 1),
                vehicles := (vehicles l)(vid v := None)\<rparr>"
      by auto
    then have "zones l' = (zones l)(zt1 := (zones l zt1)[zi := vacate (zones l zt1 ! zi) idxs])"
      by simp
    from slots_kept_update [OF this zi] show ?thesis by simp
  qed
  with remove.IH show ?case by simp
qed

lemma total_slots_init:
  assumes "zi < length (zones (Lot_init (make_zones specs)) zt)"
  shows "length (spots (zones (Lot_init (make_zones specs)) zt ! zi)) = total_slots specs zt zi"
  using assms unfolding zones_Lot_init total_slots_def
  by (auto simp: Zone_init_def split: prod.splits)

subsection \<open>The sample lots are reachable\<close>

lemma reachable_add_fst:
  assumes "reachable specs l vs" "i \<notin> vid ` set vs" "snd (add_vehicle l i t) = Inr v"
  shows "reachable specs (fst (add_vehicle l i t)) (v # vs)"
proof -
  from assms(3) have "add_vehicle l i t = (fst (add_vehicle l i t), Inr v)"
    by (simp add: prod_eq_iff)
  from reachable.add [OF assms(1,2) this] show ?thesis by (simp add: returned_def)
qed

lemma reachable_remove_fst:
  assumes "reachable specs l vs" "v \<in> set vs"
  shows "reachable specs (fst (remove_vehicle l v)) vs"
  by (rule reachable.remove [OF assms, of "fst (remove_vehicle l v)" "snd (remove_vehicle l v)"])
     simp

lemma lot_five_gap_reachable:
  "reachable [(Z_REGULAR, 1, 5, True)] lot_five_gap [car_at ''car2'' Z_REGULAR 0 1, car_at ''car1'' Z_REGULAR 0 0]"
proof -
  let ?S = "[(Z_REGULAR, 1, 5, True)]"
  have r0: "reachable ?S lot_five []" unfolding lot_five_def by (rule reachable.init)
  have a1: "snd (add_vehicle lot_five ''car1'' V_CAR) = Inr (car_at ''car1'' Z_REGULAR 0 0)" by code_simp
  have a2: "snd (add_vehicle (fst (add_vehicle lot_five ''car1'' V_CAR)) ''car2'' V_CAR)
            = Inr (car_at ''car2'' Z_REGULAR 0 1)" by code_simp
  from reachable_add_fst [OF r0 _ a1]
  have r1: "reachable ?S (fst (add_vehicle lot_five ''car1'' V_CAR)) [car_at ''car1'' Z_REGULAR 0 0]" by simp
  from reachable_add_fst [OF r1 _ a2]
  have "reachable ?S lot_five_two_cars [car_at ''car2'' Z_REGULAR 0 1, car_at ''car1'' Z_REGULAR 0 0]"
    by (simp add: lot_five_two_cars_def car_at_def)
  from reachable_remove_fst [OF this, of "car_at ''car1'' Z_REGULAR 0 0"] show ?thesis
    by (simp add: lot_five_gap_def)
qed

lemma van_in_lot_five_gap:
  "add_vehicle lot_five_gap ''van'' V_VAN = (lot_five_van, Inr van_at_234)"
proof -
  have "snd (add_vehicle lot_five_gap ''van'' V_VAN) = Inr van_at_234" by code_simp
  then show ?thesis by (simp add: prod_eq_iff lot_five_van_def)
qed

lemma lot_five_van_reachable:
  "reachable [(Z_REGULAR, 1, 5, True)] lot_five_van
     [van_at_234, car_at ''car2'' Z_REGULAR 0 1, car_at ''car1'' Z_REGULAR 0 0]"
proof -
  have "reachable [(Z_REGULAR, 1, 5, True)] lot_five_van
          (returned (Inr van_at_234) [car_at ''car2'' Z_REGULAR 0 1, car_at ''car1'' Z_REGULAR 0 0])"
    by (rule reachable.add [OF lot_five_gap_reachable _ van_in_lot_five_gap])
       (simp add: car_at_def)
  then show ?thesis by (simp add: returned_def)
qed

subsection \<open>Sorted free lists\<close>

text \<open>
  Claim C6. In every state reachable from a freshly built lot by \<^verbatim>\<open>add_vehicle\<close> and
  \<^verbatim>\<open>remove_vehicle\<close>, the free list of every zone is strictly ascending. (The lemmas
  \<open>remove_loop_vacate\<close> and \<open>park_adjacent_loop_occupy\<close> say how: the loop of
  \<^verbatim>\<open>remove_vehicle\<close> inserts each index at its sorted position, and the loops that park
  take entries out and keep the order of the rest.)
\<close>

theorem free_lists_stay_sorted:
  assumes "reachable specs l vs" "zi < length (zones l zt)"
  shows "sorted_wrt (<) (free (zones l zt ! zi))"
  using zones_ok_nth [OF lot_invD(1) [OF reachable_lot_inv [OF assms(1)]] assms(2)]
  by (simp add: zone_ok_def)

theorem free_lists_stay_sorted_witness:
  "reachable [(Z_REGULAR, 1, 5, True)] lot_five_gap [car_at ''car2'' Z_REGULAR 0 1, car_at ''car1'' Z_REGULAR 0 0]
   \<and> 0 < length (zones lot_five_gap Z_REGULAR)
   \<and> free (zones lot_five_gap Z_REGULAR ! 0) = [0, 2, 3, 4]
   \<and> sorted_wrt (<) (free (zones lot_five_gap Z_REGULAR ! 0))"
proof -
  have n: "0 < length (zones lot_five_gap Z_REGULAR)" by code_simp
  have f: "free (zones lot_five_gap Z_REGULAR ! 0) = [0, 2, 3, 4]" by code_simp
  from free_lists_stay_sorted [OF lot_five_gap_reachable n] lot_five_gap_reachable n f
  show ?thesis by simp
qed

subsection \<open>Conservation\<close>

text \<open>
  Claim C7. In every reachable state and for every zone, the length of the free list plus
  the number of occupied slots is the number of slots the zone was constructed with, and
  the slot array still has that length.
\<close>

theorem free_plus_occupied_is_total:
  assumes "reachable specs l vs" "zi < length (zones l zt)"
  shows "length (free (zones l zt ! zi)) + occupied_count (zones l zt ! zi)
           = total_slots specs zt zi
         \<and> length (spots (zones l zt ! zi)) = total_slots specs zt zi"
proof -
  let ?l0 = "Lot_init (make_zones specs)"
  let ?f = "\<lambda>z. length (spots z)"
  note k = reachable_slots_kept [OF assms(1), of zt]
  from k have "length (zones l zt) = length (zones ?l0 zt)" by (rule map_eq_imp_length_eq)
  with assms(2) have zi0: "zi < length (zones ?l0 zt)" by simp
  have "?f (zones l zt ! zi) = map ?f (zones l zt) ! zi" using assms(2) by simp
  also have "\<dots> = map ?f (zones ?l0 zt) ! zi" by (simp only: k)
  also have "\<dots> = ?f (zones ?l0 zt ! zi)" using zi0 by simp
  finally have "length (spots (zones l zt ! zi)) = total_slots specs zt zi"
    by (simp add: total_slots_init [OF zi0])
  moreover from zones_ok_nth [OF lot_invD(1) [OF reachable_lot_inv [OF assms(1)]] assms(2)]
  have "length (free (zones l zt ! zi)) + occupied_count (zones l zt ! zi)
          = length (spots (zones l zt ! zi))"
    by (simp add: zone_conservation)
  ultimately show ?thesis by simp
qed

theorem free_plus_occupied_is_total_witness:
  "reachable [(Z_REGULAR, 1, 5, True)] lot_five_van
     [van_at_234, car_at ''car2'' Z_REGULAR 0 1, car_at ''car1'' Z_REGULAR 0 0]
   \<and> 0 < length (zones lot_five_van Z_REGULAR)
   \<and> free (zones lot_five_van Z_REGULAR ! 0) = [0]
   \<and> occupied_count (zones lot_five_van Z_REGULAR ! 0) = 4
   \<and> total_slots [(Z_REGULAR, 1, 5, True)] Z_REGULAR 0 = 5
   \<and> length (free (zones lot_five_van Z_REGULAR ! 0))
       + occupied_count (zones lot_five_van Z_REGULAR ! 0)
       = total_slots [(Z_REGULAR, 1, 5, True)] Z_REGULAR 0
   \<and> length (spots (zones lot_five_van Z_REGULAR ! 0))
       = total_slots [(Z_REGULAR, 1, 5, True)] Z_REGULAR 0"
proof -
  have n: "0 < length (zones lot_five_van Z_REGULAR)" by code_simp
  have f: "free (zones lot_five_van Z_REGULAR ! 0) = [0]" by code_simp
  have c: "occupied_count (zones lot_five_van Z_REGULAR ! 0) = 4" by code_simp
  have t: "total_slots [(Z_REGULAR, 1, 5, True)] Z_REGULAR 0 = 5" by code_simp
  from free_plus_occupied_is_total [OF lot_five_van_reachable n] lot_five_van_reachable n f c t
  show ?thesis by simp
qed

subsection \<open>Single-slot placement\<close>

lemma park_zone_loop_skip:
  "\<forall>j\<in>set pre. free (zones l zt ! j) = [] \<Longrightarrow>
   park_zone_loop l zt v (pre @ zis) = park_zone_loop l zt v zis"
  by (induction pre) simp_all

lemma park_zone_loop_single:
  assumes "free (zones l zt ! zi) \<noteq> []" "sorted (free (zones l zt ! zi))"
    "hd (free (zones l zt ! zi)) < length (spots (zones l zt ! zi))"
    "vsize v \<le> zsize (zones l zt ! zi)"
  shows "park_zone_loop l zt v (zi # rest) =
     (set_zone l zt zi
        ((zones l zt ! zi)
           \<lparr>free := tl (free (zones l zt ! zi)),
            spots := (spots (zones l zt ! zi))
                       [Min (set (free (zones l zt ! zi))) := Some (vid v)]\<rparr>)
        \<lparr>count := count_add (count l) (vtype v) 1\<rparr>,
      Inr (v\<lparr>location :=
               Some (ztype (zones l zt ! zi), zi, [Min (set (free (zones l zt ! zi)))])\<rparr>,
           True))"
proof -
  from assms(1) obtain x xs where fr: "free (zones l zt ! zi) = x # xs"
    by (cases "free (zones l zt ! zi)") auto
  from hd_sorted_Min [OF assms(2,1)] fr have m: "Min (set (free (zones l zt ! zi))) = x"
    by simp
  from assms(3) fr have "x < length (spots (zones l zt ! zi))" by simp
  with assms(4) fr show ?thesis
    unfolding m by (simp add: Let_def park_single_def)
qed

text \<open>
  Claim C8. In every reachable state, let the zone at index \<open>zi\<close> be the first zone of its
  type with a free spot in the inner loop of \<^verbatim>\<open>park_first_available\<close> (the zones before it
  have empty free lists). A vehicle that fits into one spot of the zone is parked by
  \<^verbatim>\<open>park_single\<close>: it gets the smallest free index of the zone as its only spot, that
  index leaves the free list and the count grows by one. The value of \<^verbatim>\<open>zone.adjacent\<close>
  does not matter, so \<^verbatim>\<open>park_adjacent\<close> is not used.
\<close>

theorem single_slot_takes_smallest_free:
  assumes "reachable specs l vs" "zi < length (zones l zt)"
    and "\<forall>j\<in>set pre. free (zones l zt ! j) = []"
    and "free (zones l zt ! zi) \<noteq> []"
    and "vsize v \<le> zsize (zones l zt ! zi)"
  shows "park_zone_loop l zt v (pre @ zi # rest) =
     (set_zone l zt zi
        ((zones l zt ! zi)
           \<lparr>free := tl (free (zones l zt ! zi)),
            spots := (spots (zones l zt ! zi))
                       [Min (set (free (zones l zt ! zi))) := Some (vid v)]\<rparr>)
        \<lparr>count := count_add (count l) (vtype v) 1\<rparr>,
      Inr (v\<lparr>location := Some (zt, zi, [Min (set (free (zones l zt ! zi)))])\<rparr>, True))"
proof -
  let ?z = "zones l zt ! zi"
  from zones_ok_nth [OF lot_invD(1) [OF reachable_lot_inv [OF assms(1)]] assms(2)]
  have ok: "zone_ok ?z" and zt: "ztype ?z = zt" by simp_all
  from ok have s: "sorted (free ?z)"
    and f: "set (free ?z) = {i. i < length (spots ?z) \<and> spots ?z ! i = None}"
    by (simp_all add: zone_ok_def strict_sorted_iff)
  from assms(4) have "hd (free ?z) \<in> set (free ?z)" by simp
  with f have h: "hd (free ?z) < length (spots ?z)" by simp
  from park_zone_loop_single [OF assms(4) s h assms(5)] park_zone_loop_skip [OF assms(3)] zt
  show ?thesis by simp
qed

lemma lot_two_compact_one_car_reachable:
  "reachable [(Z_COMPACT, 8 / 10, 1, False), (Z_COMPACT, 8 / 10, 2, True)]
     lot_two_compact_one_car [car_at ''car1'' Z_COMPACT 0 0]"
proof -
  have "reachable [(Z_COMPACT, 8 / 10, 1, False), (Z_COMPACT, 8 / 10, 2, True)]
          lot_two_compact []"
    unfolding lot_two_compact_def by (rule reachable.init)
  moreover have "snd (add_vehicle lot_two_compact ''car1'' V_CAR)
                 = Inr (car_at ''car1'' Z_COMPACT 0 0)" by code_simp
  ultimately show ?thesis
    unfolding lot_two_compact_one_car_def by (intro reachable_add_fst) simp_all
qed

theorem single_slot_takes_smallest_free_witness:
  "reachable [(Z_COMPACT, 8 / 10, 1, False), (Z_COMPACT, 8 / 10, 2, True)]
     lot_two_compact_one_car [car_at ''car1'' Z_COMPACT 0 0]
   \<and> map free (zones lot_two_compact_one_car Z_COMPACT) = [[], [0, 1]]
   \<and> adjacent (zones lot_two_compact_one_car Z_COMPACT ! 1)
   \<and> vsize (Vehicle_init ''car2'' V_CAR) \<le> zsize (zones lot_two_compact_one_car Z_COMPACT ! 1)
   \<and> snd (park_zone_loop lot_two_compact_one_car Z_COMPACT (Vehicle_init ''car2'' V_CAR) [0, 1])
       = Inr (car_at ''car2'' Z_COMPACT 1 0, True)"
proof -
  let ?l = "lot_two_compact_one_car"
  have n: "1 < length (zones ?l Z_COMPACT)" by code_simp
  have f: "map free (zones ?l Z_COMPACT) = [[], [0, 1]]" by code_simp
  have f0: "free (zones ?l Z_COMPACT ! 0) = []" and f1: "free (zones ?l Z_COMPACT ! 1) = [0, 1]"
    by code_simp+
  have a: "adjacent (zones ?l Z_COMPACT ! 1)" by code_simp
  have s: "vsize (Vehicle_init ''car2'' V_CAR) \<le> zsize (zones ?l Z_COMPACT ! 1)" by code_simp
  have p: "\<forall>j\<in>set [0]. free (zones ?l Z_COMPACT ! j) = []" by (simp add: f0)
  have ne: "free (zones ?l Z_COMPACT ! 1) \<noteq> []" unfolding f1 by simp
  have v: "(Vehicle_init ''car2'' V_CAR)\<lparr>location := Some (Z_COMPACT, 1, [0])\<rparr>
           = car_at ''car2'' Z_COMPACT 1 0"
    by (simp add: Vehicle_init_def car_at_def)
  have m: "Min (set [0, 1 :: nat]) = 0" by simp
  from single_slot_takes_smallest_free [OF lot_two_compact_one_car_reachable n p ne s, of "[]"]
  have "snd (park_zone_loop ?l Z_COMPACT (Vehicle_init ''car2'' V_CAR) [0, 1])
        = Inr (car_at ''car2'' Z_COMPACT 1 0, True)"
    unfolding f1 m v by simp
  with lot_two_compact_one_car_reachable f a s show ?thesis by simp
qed

subsection \<open>Parking and removing again\<close>

text \<open>
  Claim C5, as amended. In every reachable state, when \<^verbatim>\<open>add_vehicle\<close> parks a new vehicle
  (in one spot or across adjacent spots) and \<^verbatim>\<open>remove_vehicle\<close> is called on it at once,
  the removal succeeds and every zone is as before the vehicle was added: the free list of
  its zone (so also its free set) and the slots are restored, and the stored vehicles are
  those of before. The free list is again strictly ascending, and \<^verbatim>\<open>park_single\<close> on
  that zone then takes the smallest free index of the zone, which is at most the smallest
  index that was freed.
\<close>

theorem park_then_remove_restores_zone:
  assumes r: "reachable specs l vs" and fresh: "i \<notin> vid ` set vs"
    and res: "add_vehicle l i t = (l1, Inr v)"
    and loc: "location v = Some (zt, zi, idxs)"
  shows "snd (remove_vehicle l1 v) = Inr Removed
     \<and> zones (fst (remove_vehicle l1 v)) = zones l
     \<and> vehicles (fst (remove_vehicle l1 v)) = vehicles l
     \<and> sorted_wrt (<) (free (zones (fst (remove_vehicle l1 v)) zt ! zi))
     \<and> snd (park_single (fst (remove_vehicle l1 v)) zt zi w)
         = Inr (w\<lparr>location := Some (zt, zi, [Min (set (free (zones l zt ! zi)))])\<rparr>)
     \<and> Min (set (free (zones l zt ! zi))) \<le> Min (set idxs)"
proof -
  let ?z = "zones l zt ! zi"
  let ?v0 = "Vehicle_init i t"
  note inv = reachable_lot_inv [OF r]
  note ok = lot_invD(1) [OF inv]
  from add_vehicle_returns [OF ok res] loc
  obtain l' where pl: "placed_in l ?v0 l' v" and l1: "l1 = l'\<lparr>vehicles := (vehicles l')(i \<mapsto> v)\<rparr>"
    by auto
  from pl loc obtain n where zi: "zi < length (zones l zt)" and ne: "idxs \<noteq> []"
    and d: "distinct idxs" and sub: "set idxs \<subseteq> set (free ?z)"
    and l': "l' = set_zone l zt zi (occupy ?z idxs i)
                    \<lparr>count := count_add (count l) (vtype ?v0) n\<rparr>"
    and vid: "vid v = i"
    unfolding placed_in_def by auto
  from zones_ok_nth [OF ok zi] have zok: "zone_ok ?z" and zt: "ztype ?z = zt" by simp_all
  from lot_inv_placed [OF inv _ pl] fresh l1
  have inv1: "lot_inv l1 (v # vs)" by simp
  have st: "vehicles l1 (vid v) \<noteq> None" by (simp add: l1 vid)
  have z1: "zones l1 zt ! zi = occupy ?z idxs i" using zi by (simp add: l1 l')
  from remove_vehicle_stored [OF inv1 _ st] loc
  have rem: "remove_vehicle l1 v
       = (set_zone l1 zt zi (vacate (zones l1 zt ! zi) idxs)
            \<lparr>count := count_add (count l1) (vtype v) (- 1),
             vehicles := (vehicles l1)(vid v := None)\<rparr>,
          Inr Removed)"
    by auto
  have restored: "vacate (zones l1 zt ! zi) idxs = ?z"
    unfolding z1 using zok sub d by (rule vacate_occupy)
  have unknown: "vehicles l i = None"
  proof (cases "vehicles l i")
    case (Some u)
    from lot_invD(2) [OF inv Some] fresh show ?thesis by auto
  qed simp
  define l2 where "l2 = fst (remove_vehicle l1 v)"
  have l2: "l2 = set_zone l1 zt zi ?z
                   \<lparr>count := count_add (count l1) (vtype v) (- 1),
                    vehicles := (vehicles l1)(vid v := None)\<rparr>"
    by (simp add: l2_def rem restored)
  have vh: "vehicles l2 = vehicles l"
    using unknown by (simp add: l2 l1 l' vid fun_eq_iff)
  have zs: "zones l2 = zones l"
    by (simp add: l2 l1 l' fun_eq_iff)
  from zok have srt: "sorted_wrt (<) (free ?z)" by (simp add: zone_ok_def)
  from ne sub have fne: "free ?z \<noteq> []" by auto
  from park_single_occupy [of l2 zt zi w] zok fne zt
  have "snd (park_single l2 zt zi w)
        = Inr (w\<lparr>location := Some (zt, zi, [hd (free ?z)])\<rparr>)"
    by (simp add: zs)
  moreover from srt have "hd (free ?z) = Min (set (free ?z))"
    using fne by (intro hd_sorted_Min) (simp add: strict_sorted_iff)
  moreover have "Min (set (free ?z)) \<le> Min (set idxs)"
    using sub ne by (intro Min_antimono) simp_all
  moreover have "snd (remove_vehicle l1 v) = Inr Removed" by (simp add: rem)
  ultimately show ?thesis using zs vh srt unfolding l2_def by simp
qed

theorem park_then_remove_restores_zone_witness:
  "reachable [(Z_REGULAR, 1, 5, True)] lot_five_gap
     [car_at ''car2'' Z_REGULAR 0 1, car_at ''car1'' Z_REGULAR 0 0]
   \<and> ''van'' \<notin> vid ` set [car_at ''car2'' Z_REGULAR 0 1, car_at ''car1'' Z_REGULAR 0 0]
   \<and> add_vehicle lot_five_gap ''van'' V_VAN = (lot_five_van, Inr van_at_234)
   \<and> location van_at_234 = Some (Z_REGULAR, 0, [2, 3, 4])
   \<and> free (zones lot_five_gap Z_REGULAR ! 0) = [0, 2, 3, 4]
   \<and> free (zones lot_five_van Z_REGULAR ! 0) = [0]
   \<and> snd (remove_vehicle lot_five_van van_at_234) = Inr Removed
   \<and> zones lot_five_van_gone = zones lot_five_gap
   \<and> vehicles lot_five_van_gone = vehicles lot_five_gap
   \<and> sorted_wrt (<) (free (zones lot_five_van_gone Z_REGULAR ! 0))
   \<and> snd (park_single lot_five_van_gone Z_REGULAR 0 (Vehicle_init ''car3'' V_CAR))
       = Inr (car_at ''car3'' Z_REGULAR 0 0)"
proof -
  have fresh: "''van'' \<notin> vid ` set [car_at ''car2'' Z_REGULAR 0 1, car_at ''car1'' Z_REGULAR 0 0]"
    by (simp add: car_at_def)
  have loc: "location van_at_234 = Some (Z_REGULAR, 0, [2, 3, 4])"
    by (simp add: van_at_234_def)
  have f: "free (zones lot_five_gap Z_REGULAR ! 0) = [0, 2, 3, 4]" by code_simp
  have f1: "free (zones lot_five_van Z_REGULAR ! 0) = [0]" by code_simp
  have m: "Min (set [0, 2, 3, 4 :: nat]) = 0" by simp
  have v: "(Vehicle_init ''car3'' V_CAR)\<lparr>location := Some (Z_REGULAR, 0, [0])\<rparr>
           = car_at ''car3'' Z_REGULAR 0 0"
    by (simp add: Vehicle_init_def car_at_def)
  from park_then_remove_restores_zone
         [OF lot_five_gap_reachable fresh van_in_lot_five_gap loc, of "Vehicle_init ''car3'' V_CAR"]
  have "snd (remove_vehicle lot_five_van van_at_234) = Inr Removed
     \<and> zones lot_five_van_gone = zones lot_five_gap
     \<and> vehicles lot_five_van_gone = vehicles lot_five_gap
     \<and> sorted_wrt (<) (free (zones lot_five_van_gone Z_REGULAR ! 0))
     \<and> snd (park_single lot_five_van_gone Z_REGULAR 0 (Vehicle_init ''car3'' V_CAR))
         = Inr (car_at ''car3'' Z_REGULAR 0 0)"
    unfolding f m v lot_five_van_gone_def by blast
  with lot_five_gap_reachable fresh van_in_lot_five_gap loc f f1 show ?thesis by blast
qed

text \<open>
  Claim C5 as stated fails where a smaller index is free. In the lot with one regular zone
  of five spots, after two cars were parked and the first removed, the free list is
  \<open>[0, 2, 3, 4]\<close>. A van is parked on 2, 3 and 4 and removed again; the free list is
  \<open>[0, 2, 3, 4]\<close> again, and the next car gets spot 0, not 2, the smallest freed index.
\<close>

theorem single_slot_after_round_trip_counterexample:
  "free (zones lot_five_gap Z_REGULAR ! 0) = [0, 2, 3, 4]
   \<and> snd (add_vehicle lot_five_gap ''van'' V_VAN) = Inr van_at_234
   \<and> location van_at_234 = Some (Z_REGULAR, 0, [2, 3, 4])
   \<and> snd (remove_vehicle lot_five_van van_at_234) = Inr Removed
   \<and> free (zones lot_five_van_gone Z_REGULAR ! 0) = [0, 2, 3, 4]
   \<and> snd (add_vehicle lot_five_van_gone ''car3'' V_CAR) = Inr (car_at ''car3'' Z_REGULAR 0 0)
   \<and> location (car_at ''car3'' Z_REGULAR 0 0) = Some (Z_REGULAR, 0, [0])
   \<and> Min (set [2, 3, 4]) = (2::nat)
   \<and> (0::nat) \<noteq> Min (set [2, 3, 4])"
  by code_simp

end
